theory Spec2Isabelle
  imports Main
begin

section \<open>Text\<close>

text \<open>
  A Python \<^verbatim>\<open>str\<close> is a sequence of Unicode code points; the file is opened in text
  mode with \<^verbatim>\<open>encoding='utf-8'\<close>, so the extractor works on code points, not bytes.
  ASCII literals of the source are written \<open>str ''...''\<close>.
\<close>

type_synonym pystr = "nat list"

abbreviation ord :: "char \<Rightarrow> nat" where
  "ord c \<equiv> of_char c"

abbreviation str :: "string \<Rightarrow> pystr" where
  "str s \<equiv> map of_char s"

section \<open>The regular-expression engine, as far as the pattern uses it\<close>

text \<open>
  \<^verbatim>\<open>re.finditer(option_pattern, content, re.IGNORECASE)\<close> on a \<^verbatim>\<open>str\<close> pattern runs with
  the flags IGNORECASE and UNICODE. The three functions below are the tables the
  compiler of the \<^verbatim>\<open>re\<close> module consults for these flags.

  \<open>unicode_isspace\<close> is the category \<^verbatim>\<open>\s\<close>: the code points for which
  \<^verbatim>\<open>str.isspace\<close> holds.

  \<open>unicode_tolower\<close> is the simple lower-case mapping, written out for every code
  point whose lower case is an ASCII character (the letters A to Z, U+0130 and the
  Kelvin sign U+212A); it leaves every other code point alone. The pattern holds
  ASCII characters only, so the sets compiled from it hold ASCII characters,
  U+0131 and U+017F only, and no other code point is mapped into these by the
  full table.

  \<open>extra_cases\<close> is the table \<^verbatim>\<open>_EXTRA_CASES\<close> of \<^verbatim>\<open>re/_casefix.py\<close> at the keys
  that a lower-cased ASCII character can be: dotless i for \<^verbatim>\<open>i\<close>, long s for \<^verbatim>\<open>s\<close>.
\<close>

definition unicode_isspace :: "nat \<Rightarrow> bool" where
  "unicode_isspace c \<longleftrightarrow>
     (9 \<le> c \<and> c \<le> 13) \<or> (28 \<le> c \<and> c \<le> 32) \<or> c = 0x85 \<or> c = 0xA0 \<or> c = 0x1680
     \<or> (0x2000 \<le> c \<and> c \<le> 0x200A) \<or> c = 0x2028 \<or> c = 0x2029 \<or> c = 0x202F
     \<or> c = 0x205F \<or> c = 0x3000"

definition unicode_iscased :: "nat \<Rightarrow> bool" where
  "unicode_iscased c \<longleftrightarrow> (65 \<le> c \<and> c \<le> 90) \<or> (97 \<le> c \<and> c \<le> 122)"

definition unicode_tolower :: "nat \<Rightarrow> nat" where
  "unicode_tolower c =
     (if 65 \<le> c \<and> c \<le> 90 then c + 32
      else if c = 0x130 then 0x69
      else if c = 0x212A then 0x6B
      else c)"

definition extra_cases :: "nat \<Rightarrow> nat list" where
  "extra_cases lo =
     (if lo = 0x69 then [0x131]
      else if lo = 0x73 then [0x17F]
      else if lo = 0x131 then [0x69]
      else if lo = 0x17F then [0x73]
      else [])"

text \<open>
  One-character items of a pattern: a literal, a negated literal (\<^verbatim>\<open>[^"]\<close> is parsed
  to one), a character set of literals and ranges, and the category \<^verbatim>\<open>\s\<close>.
\<close>

datatype set_item = Literal_item nat | Range_item nat nat

datatype atom = Literal nat | Not_literal nat | In "set_item list" | Category_space

text \<open>
  The lower-cased code of a set member together with its extra cases: what
  \<^verbatim>\<open>_optimize_charset\<close> enters into the character map under IGNORECASE.
\<close>

definition folded :: "nat \<Rightarrow> nat list" where
  "folded av = unicode_tolower av # extra_cases (unicode_tolower av)"

fun item_codes :: "set_item \<Rightarrow> nat list" where
  "item_codes (Literal_item av) = folded av"
| "item_codes (Range_item lo hi) = concat (map folded [lo..<Suc hi])"

fun item_hascased :: "set_item \<Rightarrow> bool" where
  "item_hascased (Literal_item av) = unicode_iscased av"
| "item_hascased (Range_item lo hi) = list_ex unicode_iscased [lo..<Suc hi]"

text \<open>
  Whether an item accepts the code point \<open>c\<close>. An uncased literal is compared as it
  is; a cased one is compiled to its lower case (and extra cases), against which the
  lower case of \<open>c\<close> is compared. A set with a cased member is matched the same way.
\<close>

fun atom_match :: "atom \<Rightarrow> nat \<Rightarrow> bool" where
  "atom_match (Literal av) c =
     (if \<not> unicode_iscased av then c = av else unicode_tolower c \<in> set (folded av))"
| "atom_match (Not_literal av) c =
     (if \<not> unicode_iscased av then c \<noteq> av else unicode_tolower c \<notin> set (folded av))"
| "atom_match (In items) c =
     (if list_ex item_hascased items
      then unicode_tolower c \<in> set (concat (map item_codes items))
      else c \<in> set (concat (map item_codes items)))"
| "atom_match Category_space c = unicode_isspace c"

text \<open>
  Patterns. \<open>Max_repeat m a\<close> is the greedy repetition of a one-character item, at
  least \<open>m\<close> times (\<^verbatim>\<open>*\<close> is \<open>Max_repeat 0\<close>, \<^verbatim>\<open>+\<close> is \<open>Max_repeat 1\<close>); \<open>Opt r\<close> is the
  greedy \<^verbatim>\<open>(?:r)?\<close>; \<open>Group i r\<close> is the capturing group number \<open>i\<close>.
\<close>

datatype regex =
    Eps
  | Atom atom
  | Max_repeat nat atom
  | Seq regex regex
  | Branch regex regex
  | Opt regex
  | Group nat regex

type_synonym groups = "nat \<Rightarrow> pystr option"

text \<open>
  The backtracking matcher. \<open>matches r s g\<close> lists, in the order in which the engine
  tries them, every way in which \<open>r\<close> matches a prefix of \<open>s\<close>: the text left over
  and the groups captured. A greedy repetition counts how many characters the item
  accepts and then gives them back one at a time; an alternation tries its branches
  from left to right; an optional part is tried before it is skipped.
\<close>

fun matches :: "regex \<Rightarrow> pystr \<Rightarrow> groups \<Rightarrow> (pystr \<times> groups) list" where
  "matches Eps s g = [(s, g)]"
| "matches (Atom a) s g =
     (case s of [] \<Rightarrow> [] | c # s' \<Rightarrow> if atom_match a c then [(s', g)] else [])"
| "matches (Max_repeat m a) s g =
     map (\<lambda>n. (drop n s, g)) (rev [m..<Suc (length (takeWhile (atom_match a) s))])"
| "matches (Seq r1 r2) s g =
     concat (map (\<lambda>(s', g'). matches r2 s' g') (matches r1 s g))"
| "matches (Branch r1 r2) s g = matches r1 s g @ matches r2 s g"
| "matches (Opt r) s g = matches r s g @ [(s, g)]"
| "matches (Group i r) s g =
     map (\<lambda>(s', g'). (s', g'(i \<mapsto> take (length s - length s') s))) (matches r s g)"

text \<open>\<open>sre_match\<close>: the first way in which the pattern matches at the start of \<open>s\<close>.\<close>

definition first_match :: "'a list \<Rightarrow> 'a option" where
  "first_match xs = (case xs of [] \<Rightarrow> None | x # _ \<Rightarrow> Some x)"

definition sre_match :: "regex \<Rightarrow> pystr \<Rightarrow> (pystr \<times> groups) option" where
  "sre_match p s = first_match (matches p s Map.empty)"

text \<open>
  \<open>finditer\<close>: the non-overlapping matches from left to right. The scan tries each
  position in turn and goes on behind a match. (After an empty match the scan moves
  one character on; the pattern of this program matches no empty text.)
\<close>

fun finditer :: "regex \<Rightarrow> pystr \<Rightarrow> groups list" where
  "finditer p [] = (case sre_match p [] of None \<Rightarrow> [] | Some (s', g) \<Rightarrow> [g])"
| "finditer p (c # s) =
     (case sre_match p (c # s) of
        None \<Rightarrow> finditer p s
      | Some (s', g) \<Rightarrow>
          if length s' \<le> length s then g # finditer p s' else g # finditer p s)"

section \<open>The extractor\<close>

definition word :: "string \<Rightarrow> regex" where
  "word w = foldr (\<lambda>c r. Seq (Atom (Literal (ord c))) r) w Eps"

definition seqs :: "regex list \<Rightarrow> regex" where
  "seqs rs = foldr Seq rs Eps"

text \<open>The set \<^verbatim>\<open>[A-Za-z0-9_-]\<close> and the alternation \<^verbatim>\<open>ON|OFF|TRUE|FALSE\<close>.\<close>

definition name_set :: atom where
  "name_set = In
     [Range_item (ord CHR ''A'') (ord CHR ''Z''),
      Range_item (ord CHR ''a'') (ord CHR ''z''),
      Range_item (ord CHR ''0'') (ord CHR ''9''),
      Literal_item (ord CHR ''_''),
      Literal_item (ord CHR ''-'')]"

definition default_tokens :: regex where
  "default_tokens =
     Branch (word ''ON'') (Branch (word ''OFF'') (Branch (word ''TRUE'') (word ''FALSE'')))"

text \<open>
  \<^verbatim>\<open>option\s*\(\s*([A-Za-z0-9_-]+)\s+"([^"]*)"\s*(?:(ON|OFF|TRUE|FALSE))?\s*\)\<close>
\<close>

definition option_pattern :: regex where
  "option_pattern = seqs
     [word ''option'',
      Max_repeat 0 Category_space,
      Atom (Literal (ord CHR ''('')),
      Max_repeat 0 Category_space,
      Group 1 (Max_repeat 1 name_set),
      Max_repeat 1 Category_space,
      Atom (Literal (ord CHR 0x22)),
      Group 2 (Max_repeat 0 (Not_literal (ord CHR 0x22))),
      Atom (Literal (ord CHR 0x22)),
      Max_repeat 0 Category_space,
      Opt (Group 3 default_tokens),
      Max_repeat 0 Category_space,
      Atom (Literal (ord CHR '')''))]"

text \<open>
  The dictionary built for a match. \<^verbatim>\<open>match.group(i)\<close> is \<^verbatim>\<open>None\<close> for a group that
  took no part in the match; \<^verbatim>\<open>x if x else "OFF"\<close> replaces \<^verbatim>\<open>None\<close> and the empty string.
\<close>

record option_entry =
  name :: "pystr option"
  description :: "pystr option"
  default_value :: pystr

definition entry_of_match :: "groups \<Rightarrow> option_entry" where
  "entry_of_match g =
     \<lparr>name = g 1,
      description = g 2,
      default_value =
        (case g 3 of None \<Rightarrow> str ''OFF''
         | Some t \<Rightarrow> if t = [] then str ''OFF'' else t)\<rparr>"

text \<open>The part of \<^verbatim>\<open>parse_cmake_options\<close> that follows the read.\<close>

definition extract_options :: "pystr \<Rightarrow> option_entry list" where
  "extract_options content = map entry_of_match (finditer option_pattern content)"

text \<open>
  The file system as the program sees it: whether a path names a regular file, and
  what opening and reading it gives, the text or the message of the exception.
\<close>

record env =
  isfile :: "pystr \<Rightarrow> bool"
  read_text :: "pystr \<Rightarrow> pystr + pystr"

text \<open>\<^verbatim>\<open>parse_cmake_options\<close> returns what it printed to the error channel and the list.\<close>

definition parse_cmake_options :: "env \<Rightarrow> pystr \<Rightarrow> pystr \<times> option_entry list" where
  "parse_cmake_options e cmake_file_path =
     (case read_text e cmake_file_path of
        Inl msg \<Rightarrow>
          (str ''Error reading file '' @ cmake_file_path @ str '': '' @ msg @ str [CHR 0x0A], [])
      | Inr content \<Rightarrow> ([], extract_options content))"

section \<open>The formatter\<close>

fun str_join :: "pystr \<Rightarrow> pystr list \<Rightarrow> pystr" where
  "str_join sep [] = []"
| "str_join sep [x] = x"
| "str_join sep (x # y # ys) = x @ sep @ str_join sep (y # ys)"

text \<open>How a formatted string literal renders a value that is a string or \<^verbatim>\<open>None\<close>.\<close>

fun fmt :: "pystr option \<Rightarrow> pystr" where
  "fmt None = str ''None''"
| "fmt (Some t) = t"

definition table_header :: "pystr list" where
  "table_header =
     [str ''The following CMake build options can be used to configure the build by setting them with `-D<OPTION>=<VALUE>`.'',
      str '''',
      str ''| Option | Description | Default |'',
      str ''|--------|-------------|---------|'',
      str ''| CMAKE_INSTALL_PREFIX | Installation path | /usr/local |'']"

definition table_row :: "option_entry \<Rightarrow> pystr" where
  "table_row opt =
     str ''| '' @ fmt (name opt) @ str '' | '' @ fmt (description opt) @ str '' | ''
       @ default_value opt @ str '' |''"

definition generate_doxygen_table :: "option_entry list \<Rightarrow> pystr" where
  "generate_doxygen_table options =
     (if options = [] then str ''No CMake options found.''
      else str_join (str [CHR 0x0A]) (table_header @ map table_row options))"

section \<open>The entry point\<close>

record outcome =
  stdout :: pystr
  stderr :: pystr
  exit_code :: int

text \<open>
  The path the program works on: the first argument behind the program name, or the
  default name. \<open>argv\<close> is \<^verbatim>\<open>sys.argv\<close>, the program name included.
\<close>

definition cmake_path :: "pystr list \<Rightarrow> pystr" where
  "cmake_path argv = (if length argv > 1 then argv ! 1 else str ''CMakeLists.txt'')"

text \<open>
  \<^verbatim>\<open>print\<close> writes its argument and a newline; \<^verbatim>\<open>sys.exit(1)\<close> ends the run with
  status 1, a return from \<^verbatim>\<open>main\<close> with status 0.
\<close>

definition main :: "pystr list \<Rightarrow> env \<Rightarrow> outcome" where
  "main argv e =
     (if \<not> isfile e (cmake_path argv) then
        \<lparr>stdout = [],
         stderr = str ''Error: File '' @ [39] @ cmake_path argv @ [39] @ str '' not found.''
                    @ str [CHR 0x0A],
         exit_code = 1\<rparr>
      else
        (case parse_cmake_options e (cmake_path argv) of
           (diagnostic, options) \<Rightarrow>
             \<lparr>stdout = generate_doxygen_table options @ str [CHR 0x0A],
              stderr = diagnostic,
              exit_code = 0\<rparr>))"

section \<open>Declarations, and a deterministic reading of the pattern\<close>

text \<open>
  The definitions of this section are not part of the program. The first ones say what
  the theorems mean by a keyword or a default token written in any case, and by the
  text of a declaration. The scanners read a declaration from left to right without
  backtracking; the lemmas below prove that the backtracking matcher finds on
  \<open>option_pattern\<close> exactly what they find.
\<close>

abbreviation is_space :: "nat \<Rightarrow> bool" where
  "is_space \<equiv> atom_match Category_space"

abbreviation is_name :: "nat \<Rightarrow> bool" where
  "is_name \<equiv> atom_match name_set"

abbreviation not_quote :: "nat \<Rightarrow> bool" where
  "not_quote \<equiv> atom_match (Not_literal 34)"

text \<open>\<open>word_ci w k\<close>: the text \<open>k\<close> is the word \<open>w\<close>, each letter as IGNORECASE accepts it.\<close>

definition word_ci :: "string \<Rightarrow> pystr \<Rightarrow> bool" where
  "word_ci w k \<longleftrightarrow> list_all2 (\<lambda>l c. atom_match (Literal (ord l)) c) w k"

definition word_at :: "string \<Rightarrow> pystr \<Rightarrow> bool" where
  "word_at w s \<longleftrightarrow> length w \<le> length s \<and> word_ci w (take (length w) s)"

definition is_default_token :: "pystr \<Rightarrow> bool" where
  "is_default_token t \<longleftrightarrow>
     word_ci ''ON'' t \<or> word_ci ''OFF'' t \<or> word_ci ''TRUE'' t \<or> word_ci ''FALSE'' t"

text \<open>
  The text \<^verbatim>\<open>option ( <name> "<description>" <token> )\<close>: keyword \<open>k\<close>, name \<open>n\<close>,
  description \<open>d\<close>, trailing token \<open>t\<close> (empty when there is none), and the texts
  \<open>w0\<close> to \<open>w4\<close> between them.
\<close>

definition declaration_text ::
  "pystr \<Rightarrow> pystr \<Rightarrow> pystr \<Rightarrow> pystr \<Rightarrow> pystr \<Rightarrow> pystr \<Rightarrow> pystr \<Rightarrow> pystr \<Rightarrow> pystr \<Rightarrow> pystr" where
  "declaration_text k w0 w1 n w2 d w3 t w4 =
     k @ w0 @ [40] @ w1 @ n @ w2 @ [34] @ d @ [34] @ w3 @ t @ w4 @ [41]"

definition scan_head :: "pystr \<Rightarrow> (pystr \<times> pystr \<times> pystr) option" where
  "scan_head s =
     (if 6 \<le> length s \<and> word_ci ''option'' (take 6 s) then
        (case dropWhile is_space (drop 6 s) of
           [] \<Rightarrow> None
         | c # s1 \<Rightarrow>
             if c = 40 then
               (if takeWhile is_name (dropWhile is_space s1) = [] then None
                else if takeWhile is_space (dropWhile is_name (dropWhile is_space s1)) = [] then None
                else
                  (case dropWhile is_space (dropWhile is_name (dropWhile is_space s1)) of
                     [] \<Rightarrow> None
                   | c # s2 \<Rightarrow>
                       if c = 34 then
                         (case dropWhile not_quote s2 of
                            [] \<Rightarrow> None
                          | c # s3 \<Rightarrow>
                              if c = 34
                              then Some (takeWhile is_name (dropWhile is_space s1),
                                         takeWhile not_quote s2, s3)
                              else None)
                       else None))
             else None)
      else None)"

definition scan_token :: "pystr \<Rightarrow> (pystr \<times> pystr) option" where
  "scan_token s =
     (if word_at ''ON'' s then Some (take 2 s, drop 2 s)
      else if word_at ''OFF'' s then Some (take 3 s, drop 3 s)
      else if word_at ''TRUE'' s then Some (take 4 s, drop 4 s)
      else if word_at ''FALSE'' s then Some (take 5 s, drop 5 s)
      else None)"

definition scan_close :: "pystr \<Rightarrow> pystr option" where
  "scan_close s =
     (case dropWhile is_space s of [] \<Rightarrow> None | c # r \<Rightarrow> if c = 41 then Some r else None)"

definition scan_tail :: "pystr \<Rightarrow> (pystr option \<times> pystr) option" where
  "scan_tail s =
     (case scan_token (dropWhile is_space s) of
        Some (t, r) \<Rightarrow> (case scan_close r of None \<Rightarrow> None | Some r' \<Rightarrow> Some (Some t, r'))
      | None \<Rightarrow> (case scan_close s of None \<Rightarrow> None | Some r' \<Rightarrow> Some (None, r')))"

definition scan_decl :: "pystr \<Rightarrow> (pystr \<times> pystr \<times> pystr option \<times> pystr) option" where
  "scan_decl s =
     (case scan_head s of
        None \<Rightarrow> None
      | Some (n, d, s') \<Rightarrow>
          (case scan_tail s' of None \<Rightarrow> None | Some (t, r) \<Rightarrow> Some (n, d, t, r)))"

definition groups_of :: "pystr \<Rightarrow> pystr \<Rightarrow> pystr option \<Rightarrow> groups" where
  "groups_of n d t =
     (case t of None \<Rightarrow> [1 \<mapsto> n, 2 \<mapsto> d] | Some t' \<Rightarrow> [1 \<mapsto> n, 2 \<mapsto> d, 3 \<mapsto> t'])"

text \<open>The lower case of an ASCII letter; other code points stay.\<close>

definition ascii_lower :: "nat \<Rightarrow> nat" where
  "ascii_lower c = (if 65 \<le> c \<and> c \<le> 90 then c + 32 else c)"

text \<open>What follows the second double quote of a text, if it has two.\<close>

definition after_quotes :: "pystr \<Rightarrow> pystr option" where
  "after_quotes s =
     (case dropWhile not_quote s of
        [] \<Rightarrow> None
      | _ # s1 \<Rightarrow> (case dropWhile not_quote s1 of [] \<Rightarrow> None | _ # s2 \<Rightarrow> Some s2))"

section \<open>The character classes in closed form\<close>

lemma tolower_upper: "65 \<le> c \<Longrightarrow> c \<le> 90 \<Longrightarrow> unicode_tolower c = c + 32"
  by (simp add: unicode_tolower_def)

lemma tolower_other: "c < 65 \<or> 90 < c \<Longrightarrow> c \<noteq> 304 \<Longrightarrow> c \<noteq> 8490 \<Longrightarrow> unicode_tolower c = c"
  by (auto simp: unicode_tolower_def)

lemma folded_mem:
  "x \<in> set (folded i) \<longleftrightarrow>
     x = unicode_tolower i \<or> (unicode_tolower i = 105 \<and> x = 305) \<or> (unicode_tolower i = 115 \<and> x = 383)
     \<or> (unicode_tolower i = 305 \<and> x = 105) \<or> (unicode_tolower i = 383 \<and> x = 115)"
  by (auto simp: folded_def extra_cases_def)

lemma folded_range: "x \<in> set (concat (map folded [lo..<Suc hi])) \<longleftrightarrow> (\<exists>i. lo \<le> i \<and> i \<le> hi \<and> x \<in> set (folded i))"
  by auto

lemma codes_upper: "(\<exists>i. 65 \<le> i \<and> i \<le> 90 \<and> x \<in> set (folded i)) \<longleftrightarrow> (97 \<le> x \<and> x \<le> 122) \<or> x = 305 \<or> x = 383"
proof
  assume "\<exists>i. 65 \<le> i \<and> i \<le> 90 \<and> x \<in> set (folded i)"
  then obtain i where i: "65 \<le> i" "i \<le> 90" "x \<in> set (folded i)" by blast
  then have "unicode_tolower i = i + 32" by (simp add: tolower_upper)
  with i show "(97 \<le> x \<and> x \<le> 122) \<or> x = 305 \<or> x = 383"
    unfolding folded_mem by arith
next
  assume "(97 \<le> x \<and> x \<le> 122) \<or> x = 305 \<or> x = 383"
  then consider "97 \<le> x \<and> x \<le> 122" | "x = 305" | "x = 383" by blast
  then show "\<exists>i. 65 \<le> i \<and> i \<le> 90 \<and> x \<in> set (folded i)"
  proof cases
    case 1
    then have "unicode_tolower (x - 32) = x" by (auto simp: unicode_tolower_def)
    moreover from 1 have "65 \<le> x - 32 \<and> x - 32 \<le> 90" by arith
    ultimately have "65 \<le> x - 32 \<and> x - 32 \<le> 90 \<and> x \<in> set (folded (x - 32))"
      unfolding folded_mem by simp
    then show ?thesis by blast
  next
    case 2
    have "unicode_tolower 73 = 105" by (simp add: tolower_upper)
    then have "65 \<le> (73::nat) \<and> (73::nat) \<le> 90 \<and> x \<in> set (folded 73)"
      using 2 unfolding folded_mem by simp
    then show ?thesis by blast
  next
    case 3
    have "unicode_tolower 83 = 115" by (simp add: tolower_upper)
    then have "65 \<le> (83::nat) \<and> (83::nat) \<le> 90 \<and> x \<in> set (folded 83)"
      using 3 unfolding folded_mem by simp
    then show ?thesis by blast
  qed
qed

lemma codes_lower: "(\<exists>i. 97 \<le> i \<and> i \<le> 122 \<and> x \<in> set (folded i)) \<longleftrightarrow> (97 \<le> x \<and> x \<le> 122) \<or> x = 305 \<or> x = 383"
proof
  assume "\<exists>i. 97 \<le> i \<and> i \<le> 122 \<and> x \<in> set (folded i)"
  then obtain i where i: "97 \<le> i" "i \<le> 122" "x \<in> set (folded i)" by blast
  then have "unicode_tolower i = i" by (simp add: tolower_other)
  with i show "(97 \<le> x \<and> x \<le> 122) \<or> x = 305 \<or> x = 383"
    unfolding folded_mem by arith
next
  assume "(97 \<le> x \<and> x \<le> 122) \<or> x = 305 \<or> x = 383"
  then consider "97 \<le> x \<and> x \<le> 122" | "x = 305" | "x = 383" by blast
  then show "\<exists>i. 97 \<le> i \<and> i \<le> 122 \<and> x \<in> set (folded i)"
  proof cases
    case 1
    then have "unicode_tolower x = x" by (simp add: tolower_other)
    with 1 have "97 \<le> x \<and> x \<le> 122 \<and> x \<in> set (folded x)"
      unfolding folded_mem by simp
    then show ?thesis by blast
  next
    case 2
    have "unicode_tolower 105 = 105" by (simp add: tolower_other)
    then have "97 \<le> (105::nat) \<and> (105::nat) \<le> 122 \<and> x \<in> set (folded 105)"
      using 2 unfolding folded_mem by simp
    then show ?thesis by blast
  next
    case 3
    have "unicode_tolower 115 = 115" by (simp add: tolower_other)
    then have "97 \<le> (115::nat) \<and> (115::nat) \<le> 122 \<and> x \<in> set (folded 115)"
      using 3 unfolding folded_mem by simp
    then show ?thesis by blast
  qed
qed

lemma codes_digit: "(\<exists>i. 48 \<le> i \<and> i \<le> 57 \<and> x \<in> set (folded i)) \<longleftrightarrow> (48 \<le> x \<and> x \<le> 57)"
proof
  assume "\<exists>i. 48 \<le> i \<and> i \<le> 57 \<and> x \<in> set (folded i)"
  then obtain i where i: "48 \<le> i" "i \<le> 57" "x \<in> set (folded i)" by blast
  then have "unicode_tolower i = i" by (simp add: tolower_other)
  with i show "48 \<le> x \<and> x \<le> 57"
    unfolding folded_mem by arith
next
  assume x: "48 \<le> x \<and> x \<le> 57"
  then have "unicode_tolower x = x" by (simp add: tolower_other)
  with x have "48 \<le> x \<and> x \<le> 57 \<and> x \<in> set (folded x)"
    unfolding folded_mem by simp
  then show "\<exists>i. 48 \<le> i \<and> i \<le> 57 \<and> x \<in> set (folded i)" by blast
qed

lemma name_set_cased:
  "list_ex item_hascased [Range_item 65 90, Range_item 97 122, Range_item 48 57, Literal_item 95, Literal_item 45]"
proof -
  have "(65::nat) \<in> set [65..<Suc 90]" by simp
  moreover have "unicode_iscased 65" by (simp add: unicode_iscased_def)
  ultimately have "list_ex unicode_iscased [65..<Suc 90]" unfolding list_ex_iff by blast
  then have "item_hascased (Range_item 65 90)" by (simp only: item_hascased.simps)
  then show ?thesis unfolding list_ex_iff by (simp del: item_hascased.simps)
qed

lemma name_set_codes:
  "x \<in> set (concat (map item_codes [Range_item 65 90, Range_item 97 122, Range_item 48 57, Literal_item 95, Literal_item 45]))
    \<longleftrightarrow> (97 \<le> x \<and> x \<le> 122) \<or> x = 305 \<or> x = 383 \<or> (48 \<le> x \<and> x \<le> 57) \<or> x = 95 \<or> x = 45"
proof -
  have "x \<in> set (concat (map item_codes [Range_item 65 90, Range_item 97 122, Range_item 48 57, Literal_item 95, Literal_item 45]))
    \<longleftrightarrow> x \<in> set (concat (map folded [65..<Suc 90])) \<or> x \<in> set (concat (map folded [97..<Suc 122]))
       \<or> x \<in> set (concat (map folded [48..<Suc 57])) \<or> x \<in> set (folded 95) \<or> x \<in> set (folded 45)"
    by (simp only: list.map concat.simps item_codes.simps set_append Un_iff append_Nil2)
  also have "\<dots> \<longleftrightarrow> (\<exists>i. 65 \<le> i \<and> i \<le> 90 \<and> x \<in> set (folded i)) \<or> (\<exists>i. 97 \<le> i \<and> i \<le> 122 \<and> x \<in> set (folded i))
       \<or> (\<exists>i. 48 \<le> i \<and> i \<le> 57 \<and> x \<in> set (folded i)) \<or> x \<in> set (folded 95) \<or> x \<in> set (folded 45)"
    by (simp only: folded_range)
  also have "\<dots> \<longleftrightarrow> ((97 \<le> x \<and> x \<le> 122) \<or> x = 305 \<or> x = 383) \<or> ((97 \<le> x \<and> x \<le> 122) \<or> x = 305 \<or> x = 383)
       \<or> (48 \<le> x \<and> x \<le> 57) \<or> x \<in> set (folded 95) \<or> x \<in> set (folded 45)"
    by (simp only: codes_upper codes_lower codes_digit)
  also have "\<dots> \<longleftrightarrow> (97 \<le> x \<and> x \<le> 122) \<or> x = 305 \<or> x = 383 \<or> (48 \<le> x \<and> x \<le> 57) \<or> x = 95 \<or> x = 45"
  proof -
    have "unicode_tolower 95 = 95" "unicode_tolower 45 = 45" by (simp_all add: tolower_other)
    then have "x \<in> set (folded 95) \<longleftrightarrow> x = 95" "x \<in> set (folded 45) \<longleftrightarrow> x = 45"
      unfolding folded_mem by simp_all
    then show ?thesis by blast
  qed
  finally show ?thesis .
qed

lemma tolower_cases:
  obtains "65 \<le> c" "c \<le> 90" "unicode_tolower c = c + 32"
  | "c = 304" "unicode_tolower c = 105"
  | "c = 8490" "unicode_tolower c = 107"
  | "c < 65 \<or> 90 < c" "c \<noteq> 304" "c \<noteq> 8490" "unicode_tolower c = c"
  unfolding unicode_tolower_def by (cases "65 \<le> c \<and> c \<le> 90"; cases "c = 304"; cases "c = 8490") auto

lemma name_set_match:
  "atom_match name_set c \<longleftrightarrow>
     (48 \<le> c \<and> c \<le> 57) \<or> (65 \<le> c \<and> c \<le> 90) \<or> (97 \<le> c \<and> c \<le> 122)
     \<or> c = 95 \<or> c = 45 \<or> c = 304 \<or> c = 305 \<or> c = 383 \<or> c = 8490"
proof -
  have ords: "ord CHR ''A'' = 65" "ord CHR ''Z'' = 90" "ord CHR ''a'' = 97" "ord CHR ''z'' = 122"
    "ord CHR ''0'' = 48" "ord CHR ''9'' = 57" "ord CHR ''_'' = 95" "ord CHR ''-'' = 45"
    by simp_all
  have "atom_match name_set c \<longleftrightarrow> unicode_tolower c \<in> set (concat (map item_codes [Range_item 65 90, Range_item 97 122, Range_item 48 57, Literal_item 95, Literal_item 45]))"
    unfolding name_set_def ords using name_set_cased by (simp only: atom_match.simps if_True)
  also have "\<dots> \<longleftrightarrow> (48 \<le> c \<and> c \<le> 57) \<or> (65 \<le> c \<and> c \<le> 90) \<or> (97 \<le> c \<and> c \<le> 122)
     \<or> c = 95 \<or> c = 45 \<or> c = 304 \<or> c = 305 \<or> c = 383 \<or> c = 8490"
    unfolding name_set_codes
    by (rule tolower_cases [of c]) (simp_all, arith+)
  finally show ?thesis .
qed

section \<open>The matcher on sequences\<close>

lemma concat_map_concat:
  "concat (map f (concat (map h xs))) = concat (map (\<lambda>x. concat (map f (h x))) xs)"
  by (induction xs) auto

lemma matches_Seq_assoc:
  "matches (Seq (Seq a b) c) s g = matches (Seq a (Seq b c)) s g"
  by (simp add: concat_map_concat case_prod_unfold)

lemma matches_Seq_Eps: "matches (Seq Eps r) s g = matches r s g"
  by simp

lemma matches_Seq_Atom:
  "matches (Seq (Atom a) r) s g =
     (case s of [] \<Rightarrow> [] | c # s' \<Rightarrow> if atom_match a c then matches r s' g else [])"
  by (simp split: list.split)

lemma concat_map_backoff:
  assumes "\<And>n. m \<le> n \<Longrightarrow> n < N \<Longrightarrow> h n = []"
  shows "concat (map h (rev [m..<Suc N])) = (if m \<le> N then h N else [])"
proof (cases "m \<le> N")
  case True
  have "concat (map h (rev [m..<N])) = []"
    using assms by (simp add: concat_eq_Nil_conv)
  with True show ?thesis by simp
next
  case False
  then show ?thesis by simp
qed

lemma takeWhile_accepts:
  assumes "n < length (takeWhile P s)"
  shows "\<exists>c s'. drop n s = c # s' \<and> P c"
proof -
  have len: "n < length s"
    using assms length_takeWhile_le [of P s] by (rule less_le_trans)
  have "P (takeWhile P s ! n)"
    using assms nth_mem set_takeWhileD by metis
  then have "P (s ! n)" using assms by (simp add: takeWhile_nth)
  moreover have "drop n s = s ! n # drop (Suc n) s"
    using len by (simp add: Cons_nth_drop_Suc)
  ultimately show ?thesis by blast
qed

lemma matches_Seq_repeat:
  assumes rej: "\<And>c s' g'. atom_match a c \<Longrightarrow> matches r (c # s') g' = []"
  shows "matches (Seq (Max_repeat m a) r) s g =
     (if m \<le> length (takeWhile (atom_match a) s)
      then matches r (dropWhile (atom_match a) s) g else [])"
proof -
  let ?N = "length (takeWhile (atom_match a) s)"
  let ?h = "\<lambda>n. matches r (drop n s) g"
  have "matches (Seq (Max_repeat m a) r) s g = concat (map ?h (rev [m..<Suc ?N]))"
    by (simp add: comp_def del: upt_Suc)
  also have "\<dots> = (if m \<le> ?N then ?h ?N else [])"
  proof (rule concat_map_backoff)
    fix n assume "n < ?N"
    then obtain c s' where "drop n s = c # s'" "atom_match a c"
      using takeWhile_accepts by blast
    then show "?h n = []" by (simp add: rej)
  qed
  finally show ?thesis by (simp add: dropWhile_eq_drop)
qed

lemma matches_Seq_Group_repeat:
  assumes rej: "\<And>c s' g'. atom_match a c \<Longrightarrow> matches r (c # s') g' = []"
  shows "matches (Seq (Group i (Max_repeat m a)) r) s g =
     (if m \<le> length (takeWhile (atom_match a) s)
      then matches r (dropWhile (atom_match a) s) (g(i \<mapsto> takeWhile (atom_match a) s)) else [])"
proof -
  let ?N = "length (takeWhile (atom_match a) s)"
  let ?h = "\<lambda>n. matches r (drop n s) (g(i \<mapsto> take (length s - length (drop n s)) s))"
  have N: "?N \<le> length s" by (rule length_takeWhile_le)
  have "matches (Seq (Group i (Max_repeat m a)) r) s g = concat (map ?h (rev [m..<Suc ?N]))"
    by (simp add: comp_def del: upt_Suc)
  also have "\<dots> = (if m \<le> ?N then ?h ?N else [])"
  proof (rule concat_map_backoff)
    fix n assume "n < ?N"
    then obtain c s' where "drop n s = c # s'" "atom_match a c"
      using takeWhile_accepts by blast
    then show "?h n = []" by (simp add: rej)
  qed
  also have "?h ?N = matches r (dropWhile (atom_match a) s) (g(i \<mapsto> takeWhile (atom_match a) s))"
    using N by (simp add: dropWhile_eq_drop takeWhile_eq_take [symmetric])
  finally show ?thesis .
qed

lemma word_Nil: "word [] = Eps"
  by (simp add: word_def)

lemma word_Cons: "word (c # w) = Seq (Atom (Literal (ord c))) (word w)"
  by (simp add: word_def)

lemma matches_Seq_word:
  "matches (Seq (word w) r) s g =
     (if length w \<le> length s \<and> word_ci w (take (length w) s)
      then matches r (drop (length w) s) g else [])"
proof (induction w arbitrary: s)
  case Nil
  show ?case by (simp add: word_Nil word_ci_def)
next
  case (Cons c w)
  have "matches (Seq (word (c # w)) r) s g = matches (Seq (Atom (Literal (ord c))) (Seq (word w) r)) s g"
    unfolding word_Cons by (rule matches_Seq_assoc)
  also have "\<dots> = (case s of [] \<Rightarrow> [] | x # s' \<Rightarrow>
      if atom_match (Literal (ord c)) x then matches (Seq (word w) r) s' g else [])"
    by (rule matches_Seq_Atom)
  finally show ?case
    by (cases s) (simp_all add: Cons.IH word_ci_def del: atom_match.simps matches.simps)
qed

lemma matches_word:
  "matches (word w) s g =
     (if length w \<le> length s \<and> word_ci w (take (length w) s)
      then [(drop (length w) s, g)] else [])"
proof -
  have "matches (word w) s g = matches (Seq (word w) Eps) s g"
    by (simp add: case_prod_unfold)
  then show ?thesis unfolding matches_Seq_word by simp
qed

section \<open>The pattern up to the closing quote\<close>

lemma lit_lparen: "atom_match (Literal 40) c \<longleftrightarrow> c = 40"
  by (simp add: unicode_iscased_def)

lemma lit_rparen: "atom_match (Literal 41) c \<longleftrightarrow> c = 41"
  by (simp add: unicode_iscased_def)

lemma lit_quote: "atom_match (Literal 34) c \<longleftrightarrow> c = 34"
  by (simp add: unicode_iscased_def)

lemma not_quote_iff: "not_quote c \<longleftrightarrow> c \<noteq> 34"
  by (simp add: unicode_iscased_def)

lemma is_space_iff: "is_space c \<longleftrightarrow>
     (9 \<le> c \<and> c \<le> 13) \<or> (28 \<le> c \<and> c \<le> 32) \<or> c = 133 \<or> c = 160 \<or> c = 5760
     \<or> (8192 \<le> c \<and> c \<le> 8202) \<or> c = 8232 \<or> c = 8233 \<or> c = 8239
     \<or> c = 8287 \<or> c = 12288"
  by (simp add: unicode_isspace_def)

lemma space_not_name: "is_space c \<Longrightarrow> \<not> is_name c"
  unfolding is_space_iff name_set_match by arith

lemma space_not_punct: "is_space c \<Longrightarrow> c \<noteq> 34 \<and> c \<noteq> 40 \<and> c \<noteq> 41"
  unfolding is_space_iff by arith

lemma name_not_punct: "is_name c \<Longrightarrow> c \<noteq> 34 \<and> c \<noteq> 40 \<and> c \<noteq> 41"
  unfolding name_set_match by arith

lemma takeWhile_Nil_iff: "takeWhile P s = [] \<longleftrightarrow> \<not> 1 \<le> length (takeWhile P s)"
  by (cases "takeWhile P s") simp_all

lemma matches_head:
  "matches (Seq (word ''option'') (Seq (Max_repeat 0 Category_space) (Seq (Atom (Literal 40))
     (Seq (Max_repeat 0 Category_space) (Seq (Group 1 (Max_repeat 1 name_set))
     (Seq (Max_repeat 1 Category_space) (Seq (Atom (Literal 34))
     (Seq (Group 2 (Max_repeat 0 (Not_literal 34))) (Seq (Atom (Literal 34)) R))))))))) s g =
   (case scan_head s of None \<Rightarrow> [] | Some (n, d, s') \<Rightarrow> matches R s' (g(1 \<mapsto> n, 2 \<mapsto> d)))"
proof -
  define r8 where "r8 = Seq (Atom (Literal 34)) R"
  define r7 where "r7 = Seq (Group 2 (Max_repeat 0 (Not_literal 34))) r8"
  define r6 where "r6 = Seq (Atom (Literal 34)) r7"
  define r5 where "r5 = Seq (Max_repeat 1 Category_space) r6"
  define r4 where "r4 = Seq (Group 1 (Max_repeat 1 name_set)) r5"
  define r3 where "r3 = Seq (Max_repeat 0 Category_space) r4"
  define r2 where "r2 = Seq (Atom (Literal 40)) r3"
  define r1 where "r1 = Seq (Max_repeat 0 Category_space) r2"
  have m8: "matches r8 s g = (case s of [] \<Rightarrow> [] | c # s' \<Rightarrow> if c = 34 then matches R s' g else [])" for s g
    unfolding r8_def matches_Seq_Atom lit_quote ..
  have m7: "matches r7 s g = matches r8 (dropWhile not_quote s) (g(2 \<mapsto> takeWhile not_quote s))" for s g
  proof -
    have "matches r8 (c # s') g' = []" if "not_quote c" for c s' g'
      using that unfolding m8 not_quote_iff by simp
    then show ?thesis
      unfolding r7_def by (simp only: matches_Seq_Group_repeat le0 if_True)
  qed
  have m6: "matches r6 s g = (case s of [] \<Rightarrow> [] | c # s' \<Rightarrow> if c = 34 then matches r7 s' g else [])" for s g
    unfolding r6_def matches_Seq_Atom lit_quote ..
  have m5: "matches r5 s g = (if takeWhile is_space s = [] then [] else matches r6 (dropWhile is_space s) g)" for s g
  proof -
    have "matches r6 (c # s') g' = []" if "is_space c" for c s' g'
      using that space_not_punct [of c] unfolding m6 by simp
    then show ?thesis
      unfolding r5_def by (simp only: matches_Seq_repeat takeWhile_Nil_iff if_not_P if_P split: if_split) simp
  qed
  have m4: "matches r4 s g = (if takeWhile is_name s = [] then []
      else matches r5 (dropWhile is_name s) (g(1 \<mapsto> takeWhile is_name s)))" for s g
  proof -
    have "matches r5 (c # s') g' = []" if "is_name c" for c s' g'
      using that space_not_name [of c] unfolding m5 by auto
    then show ?thesis
      unfolding r4_def by (simp only: matches_Seq_Group_repeat takeWhile_Nil_iff) simp
  qed
  have m3: "matches r3 s g = matches r4 (dropWhile is_space s) g" for s g
  proof -
    have "matches r4 (c # s') g' = []" if "is_space c" for c s' g'
      using that space_not_name [of c] unfolding m4 by auto
    then show ?thesis
      unfolding r3_def by (simp only: matches_Seq_repeat le0 if_True)
  qed
  have m2: "matches r2 s g = (case s of [] \<Rightarrow> [] | c # s' \<Rightarrow> if c = 40 then matches r3 s' g else [])" for s g
    unfolding r2_def matches_Seq_Atom lit_lparen ..
  have m1: "matches r1 s g = matches r2 (dropWhile is_space s) g" for s g
  proof -
    have "matches r2 (c # s') g' = []" if "is_space c" for c s' g'
      using that space_not_punct [of c] unfolding m2 by simp
    then show ?thesis
      unfolding r1_def by (simp only: matches_Seq_repeat le0 if_True)
  qed
  define F where "F = case_option [] (\<lambda>(n, d, s'). matches R s' (g(1 \<mapsto> n, 2 \<mapsto> d)))"
  have F_if: "F (if c then x else y) = (if c then F x else F y)" for c x y
    by simp
  have F_list: "F (case xs of [] \<Rightarrow> a | y # ys \<Rightarrow> b y ys) = (case xs of [] \<Rightarrow> F a | y # ys \<Rightarrow> F (b y ys))"
    for xs :: "nat list" and a b
    by (cases xs) simp_all
  have F_None: "F None = []"
    by (simp add: F_def)
  have F_Some: "F (Some (n, d, s')) = matches R s' (g(1 \<mapsto> n, 2 \<mapsto> d))" for n d s'
    by (simp add: F_def)
  have len: "length ''option'' = 6"
    by simp
  have "matches (Seq (word ''option'') r1) s g = F (scan_head s)"
    unfolding matches_Seq_word len m1 m2 m3 m4 m5 m6 m7 m8 scan_head_def
    by (simp only: F_if F_list F_None F_Some fun_upd_def)
  then have "matches (Seq (word ''option'') r1) s g =
      (case scan_head s of None \<Rightarrow> [] | Some (n, d, s') \<Rightarrow> matches R s' (g(1 \<mapsto> n, 2 \<mapsto> d)))"
    unfolding F_def .
  then show ?thesis
    unfolding r1_def r2_def r3_def r4_def r5_def r6_def r7_def r8_def .
qed

section \<open>The pattern behind the closing quote\<close>

lemma word_at_Nil: "word_at [] s"
  by (simp add: word_at_def word_ci_def)

lemma word_at_Cons:
  "word_at (l # w) s \<longleftrightarrow> (\<exists>c s'. s = c # s' \<and> atom_match (Literal (ord l)) c \<and> word_at w s')"
  by (cases s) (auto simp: word_at_def word_ci_def simp del: atom_match.simps)

lemma lit_upper:
  assumes "65 \<le> a" "a \<le> 90"
  shows "atom_match (Literal a) c \<longleftrightarrow>
     unicode_tolower c = a + 32 \<or> (a = 73 \<and> unicode_tolower c = 305) \<or> (a = 83 \<and> unicode_tolower c = 383)"
proof -
  have "unicode_iscased a" using assms by (simp add: unicode_iscased_def)
  moreover have "unicode_tolower a = a + 32" using assms by (simp add: tolower_upper)
  ultimately show ?thesis using assms
    by (auto simp: folded_mem)
qed

lemma lit_lower:
  assumes "97 \<le> a" "a \<le> 122"
  shows "atom_match (Literal a) c \<longleftrightarrow>
     unicode_tolower c = a \<or> (a = 105 \<and> unicode_tolower c = 305) \<or> (a = 115 \<and> unicode_tolower c = 383)"
proof -
  have "unicode_iscased a" using assms by (simp add: unicode_iscased_def)
  moreover have "unicode_tolower a = a" using assms by (simp add: tolower_other)
  ultimately show ?thesis using assms
    by (auto simp: folded_mem)
qed

lemma lit_O: "atom_match (Literal 79) c \<longleftrightarrow> unicode_tolower c = 111"
  by (simp add: lit_upper del: atom_match.simps)

lemma lit_T: "atom_match (Literal 84) c \<longleftrightarrow> unicode_tolower c = 116"
  by (simp add: lit_upper del: atom_match.simps)

lemma lit_F: "atom_match (Literal 70) c \<longleftrightarrow> unicode_tolower c = 102"
  by (simp add: lit_upper del: atom_match.simps)

lemma lit_N: "atom_match (Literal 78) c \<longleftrightarrow> unicode_tolower c = 110"
  by (simp add: lit_upper del: atom_match.simps)

lemma tolower_space: "is_space c \<Longrightarrow> unicode_tolower c = c"
  unfolding is_space_iff by (rule tolower_other) arith+

lemma token_head:
  assumes "scan_token s = Some (t, r)"
  shows "\<exists>c s'. s = c # s' \<and> unicode_tolower c \<in> {111, 116, 102}"
proof -
  from assms consider "word_at ''ON'' s" | "word_at ''OFF'' s" | "word_at ''TRUE'' s" | "word_at ''FALSE'' s"
    unfolding scan_token_def by (auto split: if_splits)
  then show ?thesis
    by cases (auto simp: word_at_Cons lit_O lit_T lit_F simp del: atom_match.simps)
qed

lemma scan_token_space: "is_space c \<Longrightarrow> scan_token (c # s) = None"
proof (rule ccontr)
  assume sp: "is_space c" and "scan_token (c # s) \<noteq> None"
  then obtain t r where "scan_token (c # s) = Some (t, r)" by auto
  from token_head [OF this] have "unicode_tolower c \<in> {111, 116, 102}" by simp
  with sp tolower_space [OF sp] show False unfolding is_space_iff by auto
qed

lemma scan_token_close:
  assumes "scan_token (dropWhile is_space s) = Some (t, r)"
  shows "scan_close s = None"
proof -
  from token_head [OF assms] obtain c s' where
    c: "dropWhile is_space s = c # s'" "unicode_tolower c \<in> {111, 116, 102}" by blast
  have "c \<noteq> 41"
  proof
    assume "c = 41"
    then have "unicode_tolower c = 41" by (simp add: tolower_other)
    with c(2) show False by simp
  qed
  with c(1) show ?thesis by (simp add: scan_close_def)
qed

lemma matches_word_at:
  "matches (word w) s g = (if word_at w s then [(drop (length w) s, g)] else [])"
  unfolding matches_word word_at_def ..

lemma word_ON_OFF: "word_at ''ON'' s \<Longrightarrow> \<not> word_at ''OFF'' s"
  by (auto simp: word_at_Cons lit_upper simp del: atom_match.simps)

lemma word_O_T: "word_at (CHR ''O'' # w) s \<Longrightarrow> \<not> word_at (CHR ''T'' # w') s"
  by (auto simp: word_at_Cons lit_upper simp del: atom_match.simps)

lemma word_O_F: "word_at (CHR ''O'' # w) s \<Longrightarrow> \<not> word_at (CHR ''F'' # w') s"
  by (auto simp: word_at_Cons lit_upper simp del: atom_match.simps)

lemma word_T_F: "word_at (CHR ''T'' # w) s \<Longrightarrow> \<not> word_at (CHR ''F'' # w') s"
  by (auto simp: word_at_Cons lit_upper simp del: atom_match.simps)

lemma matches_default_tokens:
  "matches default_tokens s g =
     (case scan_token s of None \<Rightarrow> [] | Some (t, r) \<Rightarrow> [(r, g)])"
proof -
  have "matches default_tokens s g =
      (if word_at ''ON'' s then [(drop 2 s, g)] else []) @
      (if word_at ''OFF'' s then [(drop 3 s, g)] else []) @
      (if word_at ''TRUE'' s then [(drop 4 s, g)] else []) @
      (if word_at ''FALSE'' s then [(drop 5 s, g)] else [])"
  proof -
    have "length ''ON'' = 2" "length ''OFF'' = 3" "length ''TRUE'' = 4" "length ''FALSE'' = 5"
      by simp_all
    then show ?thesis
      unfolding default_tokens_def matches.simps(5) matches_word_at by (simp only:)
  qed
  also have "\<dots> = (case scan_token s of None \<Rightarrow> [] | Some (t, r) \<Rightarrow> [(r, g)])"
    using word_ON_OFF [of s] word_O_T [of "''N''" s "''RUE''"] word_O_F [of "''N''" s "''ALSE''"]
      word_O_T [of "''FF''" s "''RUE''"] word_O_F [of "''FF''" s "''ALSE''"]
      word_T_F [of "''RUE''" s "''ALSE''"]
    unfolding scan_token_def by auto
  finally show ?thesis .
qed

lemma scan_token_take:
  assumes "scan_token s = Some (t, r)"
  shows "s = t @ r \<and> t \<noteq> []"
proof -
  have ne: "word_at (l # w) s \<Longrightarrow> s \<noteq> []" for l w
    by (auto simp: word_at_Cons)
  from assms show ?thesis
    unfolding scan_token_def by (auto split: if_splits dest: ne)
qed

lemma matches_group_tokens:
  "matches (Group 3 default_tokens) s g =
     (case scan_token s of None \<Rightarrow> [] | Some (t, r) \<Rightarrow> [(r, g(3 \<mapsto> t))])"
proof (cases "scan_token s")
  case None
  then show ?thesis by (simp add: matches_default_tokens)
next
  case (Some p)
  obtain t r where p: "p = (t, r)" by (cases p)
  from scan_token_take [OF Some [unfolded p]] have "s = t @ r" by simp
  then have "take (length s - length r) s = t" by simp
  with Some p show ?thesis by (simp add: matches_default_tokens)
qed

lemma matches_close:
  "matches (Seq (Max_repeat 0 Category_space) (Seq (Atom (Literal 41)) Eps)) s g =
     (case scan_close s of None \<Rightarrow> [] | Some r \<Rightarrow> [(r, g)])"
proof -
  have a: "matches (Seq (Atom (Literal 41)) Eps) s g =
      (case s of [] \<Rightarrow> [] | c # s' \<Rightarrow> if c = 41 then [(s', g)] else [])" for s g
    unfolding matches_Seq_Atom lit_rparen matches.simps(1) ..
  have "matches (Seq (Atom (Literal 41)) Eps) (c # s') g' = []" if "is_space c" for c s' g'
    using that space_not_punct [of c] unfolding a by simp
  then have b: "matches (Seq (Max_repeat 0 Category_space) (Seq (Atom (Literal 41)) Eps)) s g =
      matches (Seq (Atom (Literal 41)) Eps) (dropWhile is_space s) g"
    by (simp only: matches_Seq_repeat le0 if_True)
  show ?thesis
    unfolding b a scan_close_def
    by (cases "dropWhile is_space s") (simp_all only: list.case option.case if_distrib [of "case_option [] (\<lambda>r. [(r, g)])"])
qed

lemma concat_map_Nil: "concat (map (\<lambda>n. []) xs) = []"
  by (induction xs) simp_all

lemma dropWhile_drop:
  assumes "n \<le> length (takeWhile P s)"
  shows "dropWhile P (drop n s) = dropWhile P s"
proof -
  have "drop n s = drop n (takeWhile P s) @ dropWhile P s"
    using assms by (metis drop_append diff_is_0_eq drop_0 takeWhile_dropWhile_id)
  moreover have "\<And>x. x \<in> set (drop n (takeWhile P s)) \<Longrightarrow> P x"
    by (meson in_set_dropD set_takeWhileD)
  ultimately show ?thesis by (simp add: dropWhile_append2)
qed

lemma scan_close_drop:
  "n \<le> length (takeWhile is_space s) \<Longrightarrow> scan_close (drop n s) = scan_close s"
  by (simp add: scan_close_def dropWhile_drop)

lemma first_match_append:
  "first_match (xs @ ys) = (case first_match xs of None \<Rightarrow> first_match ys | Some x \<Rightarrow> Some x)"
  by (cases xs) (simp_all add: first_match_def)

lemma first_match_tail:
  "first_match (matches (Seq (Max_repeat 0 Category_space) (Seq (Opt (Group 3 default_tokens))
      (Seq (Max_repeat 0 Category_space) (Seq (Atom (Literal 41)) Eps)))) s g) =
   (case scan_tail s of None \<Rightarrow> None
    | Some (t, r) \<Rightarrow> Some (r, case t of None \<Rightarrow> g | Some t' \<Rightarrow> g(3 \<mapsto> t')))"
proof -
  define C where "C = Seq (Max_repeat 0 Category_space) (Seq (Atom (Literal 41)) Eps)"
  define U where "U = Seq (Opt (Group 3 default_tokens)) C"
  define K where "K = (case scan_close s of None \<Rightarrow> [] | Some r \<Rightarrow> [(r, g)])"
  define A where "A = (case scan_token (dropWhile is_space s) of None \<Rightarrow> []
     | Some (t, r) \<Rightarrow> (case scan_close r of None \<Rightarrow> [] | Some r' \<Rightarrow> [(r', g(3 \<mapsto> t))]))"
  let ?N = "length (takeWhile is_space s)"
  have mC: "matches C s g = (case scan_close s of None \<Rightarrow> [] | Some r \<Rightarrow> [(r, g)])" for s g
    unfolding C_def by (rule matches_close)
  have mU: "matches U s g =
      (case scan_token s of None \<Rightarrow> [] | Some (t, r) \<Rightarrow> matches C r (g(3 \<mapsto> t))) @ matches C s g" for s g
    unfolding U_def matches.simps(4) matches.simps(6) matches_group_tokens
    by (simp split: option.split)
  have low: "matches U (drop n s) g = K" if "n < ?N" for n
  proof -
    from takeWhile_accepts [OF that] obtain c s' where c: "drop n s = c # s'" "is_space c"
      by blast
    have "scan_close (drop n s) = scan_close s"
      using that by (simp add: scan_close_drop)
    then show ?thesis
      unfolding mU mC K_def using c by (simp add: scan_token_space del: atom_match.simps)
  qed
  have top: "matches U (drop ?N s) g = A @ K"
  proof -
    have "scan_close (drop ?N s) = scan_close s"
      by (simp add: scan_close_drop)
    then show ?thesis
      unfolding mU mC K_def A_def by (simp add: dropWhile_eq_drop split: option.split)
  qed
  have "matches (Seq (Max_repeat 0 Category_space) U) s g =
      concat (map (\<lambda>n. matches U (drop n s) g) (rev [0..<Suc ?N]))"
    by (simp add: comp_def del: upt_Suc)
  also have "\<dots> = matches U (drop ?N s) g @ concat (map (\<lambda>n. matches U (drop n s) g) (rev [0..<?N]))"
    by simp
  also have "map (\<lambda>n. matches U (drop n s) g) (rev [0..<?N]) = map (\<lambda>n. K) (rev [0..<?N])"
    by (rule map_cong) (simp_all add: low)
  finally have eq: "matches (Seq (Max_repeat 0 Category_space) U) s g =
      A @ K @ concat (map (\<lambda>n. K) (rev [0..<?N]))"
    unfolding top by simp
  have K_Nil: "K = [] \<Longrightarrow> concat (map (\<lambda>n. K) (rev [0..<?N])) = []"
    by (simp add: concat_eq_Nil_conv)
  have A_K: "scan_token (dropWhile is_space s) \<noteq> None \<Longrightarrow> K = []"
    unfolding K_def using scan_token_close [of s] by auto
  show ?thesis
  proof (cases "scan_token (dropWhile is_space s)")
    case None
    then have "A = []" by (simp add: A_def)
    then show ?thesis
      unfolding U_def [symmetric] C_def [symmetric] eq scan_tail_def None
      using K_Nil by (auto simp: first_match_append first_match_def K_def concat_map_Nil split: option.split)
  next
    case (Some p)
    obtain t r where p: "p = (t, r)" by (cases p)
    have "K = []" using A_K Some by simp
    then show ?thesis
      unfolding U_def [symmetric] C_def [symmetric] eq scan_tail_def Some p
      using K_Nil by (auto simp: first_match_append first_match_def A_def Some p concat_map_Nil split: option.split)
  qed
qed

section \<open>The matcher and the scanners agree\<close>

lemma option_pattern_unfold:
  "option_pattern =
     Seq (word ''option'') (Seq (Max_repeat 0 Category_space) (Seq (Atom (Literal 40))
     (Seq (Max_repeat 0 Category_space) (Seq (Group 1 (Max_repeat 1 name_set))
     (Seq (Max_repeat 1 Category_space) (Seq (Atom (Literal 34))
     (Seq (Group 2 (Max_repeat 0 (Not_literal 34))) (Seq (Atom (Literal 34))
     (Seq (Max_repeat 0 Category_space) (Seq (Opt (Group 3 default_tokens))
      (Seq (Max_repeat 0 Category_space) (Seq (Atom (Literal 41)) Eps))))))))))))"
  by (simp add: option_pattern_def seqs_def)

lemma first_match_case_option:
  "first_match (case x of None \<Rightarrow> [] | Some y \<Rightarrow> f y) =
     (case x of None \<Rightarrow> None | Some y \<Rightarrow> first_match (f y))"
  by (cases x) (simp_all add: first_match_def)

lemma sre_match_option_pattern:
  "sre_match option_pattern s =
     (case scan_decl s of None \<Rightarrow> None | Some (n, d, t, r) \<Rightarrow> Some (r, groups_of n d t))"
proof (cases "scan_head s")
  case None
  then show ?thesis
    unfolding sre_match_def option_pattern_unfold matches_head scan_decl_def
    by (simp add: first_match_def)
next
  case (Some p)
  obtain n d s' where p: "p = (n, d, s')" by (cases p)
  show ?thesis
    unfolding sre_match_def option_pattern_unfold matches_head scan_decl_def Some p
    by (simp only: option.case prod.case first_match_tail)
       (auto simp: groups_of_def split: option.split)
qed

lemma dropWhile_Cons_length: "dropWhile P xs = y # ys \<Longrightarrow> length ys < length xs"
  using length_dropWhile_le [of P xs] by simp

lemma scan_close_length: "scan_close s = Some r \<Longrightarrow> length r < length s"
  unfolding scan_close_def
  by (auto split: list.splits if_splits dest: dropWhile_Cons_length)

lemma scan_token_length: "scan_token s = Some (t, r) \<Longrightarrow> length r < length s"
  using scan_token_take [of s t r] by (cases t) auto

lemma scan_tail_length:
  assumes "scan_tail s = Some (t, r)"
  shows "length r < length s"
proof (cases "scan_token (dropWhile is_space s)")
  case None
  with assms show ?thesis
    by (auto simp: scan_tail_def split: option.splits dest: scan_close_length)
next
  case (Some p)
  obtain t' r' where p: "p = (t', r')" by (cases p)
  from assms Some p have "scan_close r' = Some r"
    by (auto simp: scan_tail_def split: option.splits)
  then have "length r < length r'" by (rule scan_close_length)
  moreover have "length r' < length (dropWhile is_space s)"
    using Some p by (auto dest: scan_token_length)
  moreover have "length (dropWhile is_space s) \<le> length s"
    by (rule length_dropWhile_le)
  ultimately show ?thesis by linarith
qed

lemma scan_head_length:
  assumes "scan_head s = Some (n, d, r)"
  shows "length r < length s"
proof -
  from assms obtain c1 s1 c2 s2 c3 where
    a: "dropWhile is_space (drop 6 s) = c1 # s1"
    and b: "dropWhile is_space (dropWhile is_name (dropWhile is_space s1)) = c2 # s2"
    and c: "dropWhile not_quote s2 = c3 # r"
    unfolding scan_head_def by (auto split: if_splits list.splits simp del: atom_match.simps)
  have "length r < length s2" using c by (rule dropWhile_Cons_length)
  moreover have "length s2 < length (dropWhile is_name (dropWhile is_space s1))"
    using b by (rule dropWhile_Cons_length)
  moreover have "length (dropWhile is_name (dropWhile is_space s1)) \<le> length (dropWhile is_space s1)"
    by (rule length_dropWhile_le)
  moreover have "length (dropWhile is_space s1) \<le> length s1"
    by (rule length_dropWhile_le)
  moreover have "length s1 < length (drop 6 s)" using a by (rule dropWhile_Cons_length)
  moreover have "length (drop 6 s) \<le> length s" by simp
  ultimately show ?thesis by linarith
qed

lemma scan_decl_length:
  assumes "scan_decl s = Some (n, d, t, r)"
  shows "length r < length s"
proof -
  from assms obtain s' where "scan_head s = Some (n, d, s')" "scan_tail s' = Some (t, r)"
    unfolding scan_decl_def by (auto split: option.splits)
  then show ?thesis
    using scan_head_length scan_tail_length by fastforce
qed

lemma finditer_Nil: "finditer option_pattern [] = []"
proof -
  have "scan_head [] = None" by (simp add: scan_head_def)
  then have "scan_decl [] = None" by (simp add: scan_decl_def)
  then show ?thesis by (simp add: sre_match_option_pattern)
qed

lemma finditer_match:
  assumes "scan_decl s = Some (n, d, t, r)"
  shows "finditer option_pattern s = groups_of n d t # finditer option_pattern r"
proof (cases s)
  case Nil
  with scan_decl_length [OF assms] show ?thesis by simp
next
  case (Cons c s')
  from scan_decl_length [OF assms] Cons have "length r \<le> length s'" by simp
  then show ?thesis
    using assms unfolding Cons by (simp add: sre_match_option_pattern)
qed

lemma finditer_skip:
  assumes "scan_decl (c # s) = None"
  shows "finditer option_pattern (c # s) = finditer option_pattern s"
  using assms by (simp add: sre_match_option_pattern)

section \<open>A declaration is matched\<close>

lemma span_append:
  assumes "list_all P xs" and "ys = [] \<or> \<not> P (hd ys)"
  shows "takeWhile P (xs @ ys) = xs" and "dropWhile P (xs @ ys) = ys"
proof -
  have all: "\<And>x. x \<in> set xs \<Longrightarrow> P x"
    using assms(1) by (simp add: list_all_iff)
  have "takeWhile P ys = []" "dropWhile P ys = ys"
    using assms(2) by (cases ys; simp)+
  then show "takeWhile P (xs @ ys) = xs" "dropWhile P (xs @ ys) = ys"
    using all by (simp_all add: takeWhile_append2 dropWhile_append2)
qed

lemma word_ci_length: "word_ci w k \<Longrightarrow> length k = length w"
  unfolding word_ci_def by (simp add: list_all2_lengthD)

lemma word_at_append: "word_ci w t \<Longrightarrow> word_at w (t @ x)"
  using word_ci_length [of w t] by (simp add: word_at_def)

lemma scan_head_declaration:
  assumes kw: "word_ci ''option'' k"
    and w0: "list_all is_space w0" and w1: "list_all is_space w1"
    and w2: "list_all is_space w2" "w2 \<noteq> []"
    and n: "list_all is_name n" "n \<noteq> []"
    and d: "34 \<notin> set d"
  shows "scan_head (k @ w0 @ [40] @ w1 @ n @ w2 @ [34] @ d @ [34] @ r) = Some (n, d, r)"
proof -
  let ?s5 = "34 # r"
  let ?s4 = "34 # d @ ?s5"
  let ?s3 = "w2 @ ?s4"
  let ?s2 = "n @ ?s3"
  let ?s1 = "w1 @ ?s2"
  let ?s0 = "w0 @ 40 # ?s1"
  have len: "length k = 6" using word_ci_length [OF kw] by simp
  have k: "6 \<le> length (k @ ?s0)" "take 6 (k @ ?s0) = k" "drop 6 (k @ ?s0) = ?s0"
    using len by simp_all
  have "\<not> is_space 40" "\<not> is_space 34"
    using space_not_punct by blast+
  have a: "dropWhile is_space ?s0 = 40 # ?s1"
    using span_append(2) [OF w0, of "40 # ?s1"] \<open>\<not> is_space 40\<close> by simp
  obtain c n' where nc: "n = c # n'" using n(2) by (cases n) auto
  then have "is_name c" using n(1) by simp
  then have "\<not> is_space c" using space_not_name by blast
  have b: "dropWhile is_space ?s1 = ?s2"
    using span_append(2) [OF w1, of ?s2] \<open>\<not> is_space c\<close> nc by simp
  obtain x w2' where wx: "w2 = x # w2'" using w2(2) by (cases w2) auto
  then have "is_space x" using w2(1) by simp
  then have "\<not> is_name x" using space_not_name by blast
  have c: "takeWhile is_name ?s2 = n" "dropWhile is_name ?s2 = ?s3"
    using span_append [OF n(1), of ?s3] \<open>\<not> is_name x\<close> wx by simp_all
  have e: "takeWhile is_space ?s3 = w2" "dropWhile is_space ?s3 = ?s4"
    using span_append [OF w2(1), of ?s4] \<open>\<not> is_space 34\<close> by simp_all
  have "list_all not_quote d"
    using d unfolding list_all_iff not_quote_iff by blast
  moreover have "\<not> not_quote 34" unfolding not_quote_iff by simp
  ultimately have f: "takeWhile not_quote (d @ ?s5) = d" "dropWhile not_quote (d @ ?s5) = ?s5"
    using span_append [of not_quote d ?s5] by simp_all
  have "scan_head (k @ ?s0) = Some (n, d, r)"
    unfolding scan_head_def
    by (simp only: k kw a b c e f list.case if_True simp_thms n(2) w2(2) if_False)
  then show ?thesis by simp
qed

lemma scan_close_paren:
  assumes "list_all is_space w"
  shows "scan_close (w @ [41] @ r) = Some r"
proof -
  have "\<not> is_space 41" using space_not_punct by blast
  then have "dropWhile is_space (w @ 41 # r) = 41 # r"
    using span_append(2) [OF assms, of "41 # r"] by simp
  then show ?thesis by (simp add: scan_close_def)
qed

lemma scan_token_paren: "scan_token (41 # r) = None"
proof (rule ccontr)
  assume "scan_token (41 # r) \<noteq> None"
  then obtain t r' where "scan_token (41 # r) = Some (t, r')" by auto
  from token_head [OF this] have "unicode_tolower 41 \<in> {111, 116, 102}" by simp
  moreover have "unicode_tolower 41 = 41" by (simp add: tolower_other)
  ultimately show False by simp
qed

lemma scan_token_default:
  assumes "is_default_token t"
  shows "scan_token (t @ x) = Some (t, x)"
proof -
  from assms consider "word_ci ''ON'' t" | "word_ci ''OFF'' t" | "word_ci ''TRUE'' t" | "word_ci ''FALSE'' t"
    unfolding is_default_token_def by blast
  then show ?thesis
  proof cases
    case 1
    from word_ci_length [OF 1] word_at_append [OF 1, of x] show ?thesis
      by (simp add: scan_token_def)
  next
    case 2
    have at: "word_at ''OFF'' (t @ x)" using 2 by (rule word_at_append)
    then have "\<not> word_at ''ON'' (t @ x)" using word_ON_OFF by blast
    with word_ci_length [OF 2] at show ?thesis
      by (simp add: scan_token_def)
  next
    case 3
    have at: "word_at ''TRUE'' (t @ x)" using 3 by (rule word_at_append)
    then have "\<not> word_at ''ON'' (t @ x)" "\<not> word_at ''OFF'' (t @ x)"
      using word_O_T by blast+
    with word_ci_length [OF 3] at show ?thesis
      by (simp add: scan_token_def)
  next
    case 4
    have at: "word_at ''FALSE'' (t @ x)" using 4 by (rule word_at_append)
    then have "\<not> word_at ''ON'' (t @ x)" "\<not> word_at ''OFF'' (t @ x)" "\<not> word_at ''TRUE'' (t @ x)"
      using word_O_F word_T_F by blast+
    with word_ci_length [OF 4] at show ?thesis
      by (simp add: scan_token_def)
  qed
qed

lemma default_token_head:
  assumes "is_default_token t"
  shows "t \<noteq> [] \<and> \<not> is_space (hd t)"
proof -
  from scan_token_default [OF assms, of "[]"] have st: "scan_token t = Some (t, [])" by simp
  from token_head [OF st] obtain c s' where c: "t = c # s'" "unicode_tolower c \<in> {111, 116, 102}"
    by blast
  have "\<not> is_space c"
  proof
    assume sp: "is_space c"
    with c(2) tolower_space [OF sp] show False unfolding is_space_iff by auto
  qed
  with c(1) show ?thesis by simp
qed

lemma scan_tail_token:
  assumes w3: "list_all is_space w3" and w4: "list_all is_space w4"
    and t: "is_default_token t"
  shows "scan_tail (w3 @ t @ w4 @ [41] @ r) = Some (Some t, r)"
proof -
  from default_token_head [OF t] have "t @ w4 @ [41] @ r = [] \<or> \<not> is_space (hd (t @ w4 @ [41] @ r))"
    by simp
  from span_append(2) [OF w3 this]
  have "dropWhile is_space (w3 @ t @ w4 @ [41] @ r) = t @ w4 @ [41] @ r" .
  then show ?thesis
    unfolding scan_tail_def
    by (simp only: scan_token_default [OF t] scan_close_paren [OF w4] option.case prod.case)
qed

lemma scan_tail_no_token:
  assumes w3: "list_all is_space w3" and w4: "list_all is_space w4"
  shows "scan_tail (w3 @ w4 @ [41] @ r) = Some (None, r)"
proof -
  have w: "list_all is_space (w3 @ w4)" using w3 w4 by simp
  have "\<not> is_space 41" using space_not_punct by blast
  then have "dropWhile is_space ((w3 @ w4) @ 41 # r) = 41 # r"
    using span_append(2) [OF w, of "41 # r"] by simp
  moreover have "scan_close ((w3 @ w4) @ [41] @ r) = Some r"
    using w by (rule scan_close_paren)
  ultimately show ?thesis
    unfolding scan_tail_def by (simp add: scan_token_paren del: atom_match.simps)
qed

lemma scan_decl_declaration:
  assumes kw: "word_ci ''option'' k"
    and w0: "list_all is_space w0" and w1: "list_all is_space w1"
    and w2: "list_all is_space w2" "w2 \<noteq> []"
    and n: "list_all is_name n" "n \<noteq> []"
    and d: "34 \<notin> set d"
    and w3: "list_all is_space w3" and w4: "list_all is_space w4"
    and t: "t = [] \<or> is_default_token t"
  shows "scan_decl (declaration_text k w0 w1 n w2 d w3 t w4 @ r) =
           Some (n, d, if t = [] then None else Some t, r)"
proof -
  have split: "declaration_text k w0 w1 n w2 d w3 t w4 @ r =
      k @ w0 @ [40] @ w1 @ n @ w2 @ [34] @ d @ [34] @ (w3 @ t @ w4 @ [41] @ r)"
    by (simp add: declaration_text_def)
  have head: "scan_head (declaration_text k w0 w1 n w2 d w3 t w4 @ r) = Some (n, d, w3 @ t @ w4 @ [41] @ r)"
    unfolding split using kw w0 w1 w2 n d by (rule scan_head_declaration)
  show ?thesis
  proof (cases "t = []")
    case True
    then have "scan_tail (w3 @ t @ w4 @ [41] @ r) = Some (None, r)"
      using scan_tail_no_token [OF w3 w4] by simp
    with True head show ?thesis by (simp add: scan_decl_def)
  next
    case False
    then have "is_default_token t" using t by simp
    then have "scan_tail (w3 @ t @ w4 @ [41] @ r) = Some (Some t, r)"
      using scan_tail_token [OF w3 w4] by simp
    with False head show ?thesis by (simp add: scan_decl_def)
  qed
qed

lemma default_token_nonempty: "is_default_token t \<Longrightarrow> t \<noteq> []"
  using default_token_head by blast

lemma extract_declaration:
  assumes kw: "word_ci ''option'' k"
    and w0: "list_all is_space w0" and w1: "list_all is_space w1"
    and w2: "list_all is_space w2" "w2 \<noteq> []"
    and n: "list_all is_name n" "n \<noteq> []"
    and d: "34 \<notin> set d"
    and w3: "list_all is_space w3" and w4: "list_all is_space w4"
    and t: "t = [] \<or> is_default_token t"
  shows "extract_options (declaration_text k w0 w1 n w2 d w3 t w4 @ r) =
           \<lparr>name = Some n, description = Some d,
            default_value = (if t = [] then str ''OFF'' else t)\<rparr> # extract_options r"
proof -
  have "finditer option_pattern (declaration_text k w0 w1 n w2 d w3 t w4 @ r) =
      groups_of n d (if t = [] then None else Some t) # finditer option_pattern r"
    using scan_decl_declaration [OF assms] by (rule finditer_match)
  then show ?thesis
    by (simp add: extract_options_def entry_of_match_def groups_of_def)
qed

section \<open>A declaration with another trailing token is not matched\<close>

lemma no_quote_all: "34 \<notin> set xs \<Longrightarrow> list_all not_quote xs"
  unfolding list_all_iff not_quote_iff by blast

lemma dropWhile_no_quote: "34 \<notin> set xs \<Longrightarrow> dropWhile not_quote xs = []"
  using no_quote_all [of xs] by (simp add: list_all_iff del: atom_match.simps)

lemma dropWhile_to_quote: "34 \<notin> set xs \<Longrightarrow> dropWhile not_quote (xs @ 34 # r) = 34 # r"
proof -
  assume "34 \<notin> set xs"
  then have "list_all not_quote xs" by (rule no_quote_all)
  moreover have "\<not> not_quote 34" unfolding not_quote_iff by simp
  ultimately show ?thesis using span_append(2) [of not_quote xs "34 # r"] by simp
qed

lemma after_quotes_decomp:
  assumes "34 \<notin> set h" and "34 \<notin> set d"
  shows "after_quotes (h @ [34] @ d @ [34] @ r) = Some r"
  using assms by (simp add: after_quotes_def dropWhile_to_quote del: atom_match.simps)

lemma after_quotes_Cons:
  "after_quotes (c # s) =
     (if c = 34 then (case dropWhile not_quote s of [] \<Rightarrow> None | _ # s2 \<Rightarrow> Some s2)
      else after_quotes s)"
  unfolding after_quotes_def by (simp add: not_quote_iff del: atom_match.simps)

lemma after_quotes_suffix:
  assumes B: "34 \<notin> set B"
  shows "after_quotes s = None \<or> after_quotes s = Some B \<Longrightarrow> s = p @ s'
     \<Longrightarrow> after_quotes s' = None \<or> after_quotes s' = Some B"
proof (induction p arbitrary: s)
  case Nil
  then show ?case by simp
next
  case (Cons c p)
  let ?s0 = "p @ s'"
  have s: "s = c # ?s0" using Cons.prems(2) by simp
  have "after_quotes ?s0 = None \<or> after_quotes ?s0 = Some B"
  proof (cases "c = 34")
    case False
    then show ?thesis using Cons.prems(1) unfolding s after_quotes_Cons by simp
  next
    case True
    show ?thesis
    proof (cases "dropWhile not_quote ?s0")
      case Nil
      note dw = Nil
      show ?thesis unfolding after_quotes_def dw by simp
    next
      case (Cons q s1)
      note dw = Cons
      have "after_quotes s = Some s1"
        unfolding s after_quotes_Cons dw using True by simp
      then have "s1 = B" using Cons.prems(1) by simp
      then have e: "dropWhile not_quote s1 = []" using dropWhile_no_quote [OF B] by blast
      show ?thesis unfolding after_quotes_def dw by (simp add: e del: atom_match.simps)
    qed
  qed
  then show ?case by (rule Cons.IH) simp
qed

lemma takeWhile_no_quote:
  assumes "\<And>c. P c \<Longrightarrow> c \<noteq> 34"
  shows "34 \<notin> set (takeWhile P s)"
  using assms set_takeWhileD by fastforce

lemma lit_letter_not_punct:
  assumes "atom_match (Literal (ord l)) c" and "unicode_iscased (ord l)"
  shows "c \<noteq> 34 \<and> c \<noteq> 41 \<and> \<not> is_space c"
proof -
  let ?a = "ord l"
  from assms(2) consider "65 \<le> ?a \<and> ?a \<le> 90" | "97 \<le> ?a \<and> ?a \<le> 122"
    unfolding unicode_iscased_def by blast
  then have low: "(97 \<le> unicode_tolower c \<and> unicode_tolower c \<le> 122)
      \<or> unicode_tolower c = 305 \<or> unicode_tolower c = 383"
  proof cases
    case 1
    then show ?thesis using assms(1) by (simp only: lit_upper) arith
  next
    case 2
    then show ?thesis using assms(1) by (simp only: lit_lower) arith
  qed
  have "c \<noteq> 34" "c \<noteq> 41"
    using low by (auto simp: tolower_other)
  moreover have "\<not> is_space c"
  proof
    assume sp: "is_space c"
    from tolower_space [OF sp] low
    have "(97 \<le> c \<and> c \<le> 122) \<or> c = 305 \<or> c = 383" by simp
    then show False using sp unfolding is_space_iff by arith
  qed
  ultimately show ?thesis by blast
qed

lemma word_ci_chars:
  assumes "word_ci w k" and "list_all (\<lambda>l. unicode_iscased (ord l)) w"
  shows "\<forall>c\<in>set k. c \<noteq> 34 \<and> c \<noteq> 41 \<and> \<not> is_space c"
proof
  fix c assume "c \<in> set k"
  then obtain i where i: "i < length k" "k ! i = c" by (auto simp: in_set_conv_nth)
  have len: "length w = length k" using assms(1) by (simp add: word_ci_def list_all2_lengthD)
  have "atom_match (Literal (ord (w ! i))) (k ! i)"
    using assms(1) i(1) unfolding word_ci_def by (rule list_all2_nthD2)
  moreover have "unicode_iscased (ord (w ! i))"
    using assms(2) i(1) len by (simp add: list_all_length)
  ultimately show "c \<noteq> 34 \<and> c \<noteq> 41 \<and> \<not> is_space c"
    using lit_letter_not_punct i(2) by blast
qed

lemma keyword_chars:
  assumes "word_ci ''option'' k"
  shows "\<forall>c\<in>set k. c \<noteq> 34 \<and> c \<noteq> 41 \<and> \<not> is_space c"
  using assms by (rule word_ci_chars) (simp add: unicode_iscased_def)

lemma default_token_chars:
  assumes "is_default_token t"
  shows "\<forall>c\<in>set t. c \<noteq> 34 \<and> c \<noteq> 41 \<and> \<not> is_space c"
proof -
  have c: "list_all (\<lambda>l. unicode_iscased (ord l)) ''ON''" "list_all (\<lambda>l. unicode_iscased (ord l)) ''OFF''"
    "list_all (\<lambda>l. unicode_iscased (ord l)) ''TRUE''" "list_all (\<lambda>l. unicode_iscased (ord l)) ''FALSE''"
    by (simp_all add: unicode_iscased_def)
  from assms consider "word_ci ''ON'' t" | "word_ci ''OFF'' t" | "word_ci ''TRUE'' t" | "word_ci ''FALSE'' t"
    unfolding is_default_token_def by blast
  then show ?thesis
    by cases (rule word_ci_chars, assumption, rule c)+
qed

lemma scan_token_sound:
  assumes "scan_token s = Some (t, r)"
  shows "is_default_token t \<and> s = t @ r"
proof -
  have "word_at ''ON'' s \<Longrightarrow> word_ci ''ON'' (take 2 s)"
    "word_at ''OFF'' s \<Longrightarrow> word_ci ''OFF'' (take 3 s)"
    "word_at ''TRUE'' s \<Longrightarrow> word_ci ''TRUE'' (take 4 s)"
    "word_at ''FALSE'' s \<Longrightarrow> word_ci ''FALSE'' (take 5 s)"
    by (simp_all add: word_at_def eval_nat_numeral)
  with assms have "is_default_token t"
    unfolding scan_token_def is_default_token_def by (auto split: if_splits)
  with scan_token_take [OF assms] show ?thesis by simp
qed

lemma scan_head_quotes:
  assumes "scan_head s = Some (n, d, r)"
  shows "\<exists>h. s = h @ [34] @ d @ [34] @ r \<and> 34 \<notin> set h \<and> 34 \<notin> set d"
proof -
  let ?k = "take 6 s"
  let ?w0 = "takeWhile is_space (drop 6 s)"
  from assms obtain s1 s2 where
    kw: "word_ci ''option'' ?k"
    and a: "dropWhile is_space (drop 6 s) = 40 # s1"
    and b: "dropWhile is_space (dropWhile is_name (dropWhile is_space s1)) = 34 # s2"
    and c: "dropWhile not_quote s2 = 34 # r"
    and d: "d = takeWhile not_quote s2"
    unfolding scan_head_def by (auto split: if_splits list.splits simp del: atom_match.simps)
  let ?w1 = "takeWhile is_space s1"
  let ?n = "takeWhile is_name (dropWhile is_space s1)"
  let ?w2 = "takeWhile is_space (dropWhile is_name (dropWhile is_space s1))"
  define h where "h = ?k @ ?w0 @ [40] @ ?w1 @ ?n @ ?w2"
  have "s = ?k @ drop 6 s" by simp
  also have "drop 6 s = ?w0 @ 40 # s1"
    using a takeWhile_dropWhile_id [of is_space "drop 6 s"] by simp
  also have "s1 = ?w1 @ dropWhile is_space s1" by simp
  also have "dropWhile is_space s1 = ?n @ dropWhile is_name (dropWhile is_space s1)" by simp
  also have "dropWhile is_name (dropWhile is_space s1) = ?w2 @ 34 # s2"
    using b takeWhile_dropWhile_id [of is_space "dropWhile is_name (dropWhile is_space s1)"] by simp
  also have "s2 = d @ 34 # r"
    using c d takeWhile_dropWhile_id [of not_quote s2] by simp
  finally have e: "s = h @ [34] @ d @ [34] @ r" by (simp add: h_def del: atom_match.simps)
  have q1: "34 \<notin> set ?k" using keyword_chars [OF kw] by blast
  have q2: "34 \<notin> set (takeWhile is_space x)" for x
    by (rule takeWhile_no_quote) (use space_not_punct in blast)
  have q3: "34 \<notin> set ?n"
    by (rule takeWhile_no_quote) (use name_not_punct in blast)
  have q4: "34 \<notin> set d"
    unfolding d by (rule takeWhile_no_quote) (use not_quote_iff in blast)
  have "34 \<notin> set h"
    unfolding h_def using q1 q2 q3 by (simp del: atom_match.simps)
  with e q4 show ?thesis by blast
qed

lemma scan_decl_after_quotes:
  assumes "scan_decl s = Some x"
  shows "\<exists>r. after_quotes s = Some r \<and> scan_tail r \<noteq> None"
proof -
  from assms obtain n d r where h: "scan_head s = Some (n, d, r)" and t: "scan_tail r \<noteq> None"
    unfolding scan_decl_def by (auto split: option.splits)
  from scan_head_quotes [OF h] obtain h0 where
    "s = h0 @ [34] @ d @ [34] @ r" "34 \<notin> set h0" "34 \<notin> set d" by blast
  then have "after_quotes s = Some r" using after_quotes_decomp by blast
  with t show ?thesis by blast
qed

lemma scan_close_reject:
  assumes "\<not> is_space c" and "c \<noteq> 41"
  shows "scan_close (c # s) = None"
  using assms by (simp add: scan_close_def del: atom_match.simps)

lemma scan_tail_other_token:
  assumes w3: "list_all is_space w3" and w4: "list_all is_space w4"
    and t: "t \<noteq> []" "\<forall>c\<in>set t. \<not> is_space c \<and> c \<noteq> 41"
    and bad: "\<not> is_default_token t"
  shows "scan_tail (w3 @ t @ w4 @ [41] @ r) = None"
proof -
  let ?x = "w4 @ [41] @ r"
  obtain c t' where tc: "t = c # t'" using t(1) by (cases t) auto
  then have c: "\<not> is_space c" "c \<noteq> 41" using t(2) by simp_all
  then have "t @ ?x = [] \<or> \<not> is_space (hd (t @ ?x))" using tc by simp
  from span_append(2) [OF w3 this]
  have dw: "dropWhile is_space (w3 @ t @ ?x) = t @ ?x" .
  have close: "scan_close (w3 @ t @ ?x) = None"
    unfolding scan_close_def dw using tc c by simp
  show ?thesis
  proof (cases "scan_token (t @ ?x)")
    case None
    then show ?thesis unfolding scan_tail_def dw using close by simp
  next
    case (Some p)
    obtain t1 r1 where p: "p = (t1, r1)" by (cases p)
    from scan_token_sound [OF Some [unfolded p]]
    have t1: "is_default_token t1" and eq: "t @ ?x = t1 @ r1" by simp_all
    from default_token_chars [OF t1]
    have t1c: "\<forall>c\<in>set t1. \<not> is_space c \<and> c \<noteq> 41" by blast
    from eq obtain us where "(t = t1 @ us \<and> us @ ?x = r1) \<or> (t @ us = t1 \<and> ?x = us @ r1)"
      unfolding append_eq_append_conv2 by blast
    then have "scan_close r1 = None"
    proof
      assume l: "t = t1 @ us \<and> us @ ?x = r1"
      show ?thesis
      proof (cases us)
        case Nil
        with l bad t1 show ?thesis by simp
      next
        case (Cons u us')
        then have "u \<in> set t" using l by simp
        then have "\<not> is_space u" "u \<noteq> 41" using t(2) by blast+
        then have "scan_close (u # us' @ ?x) = None" by (rule scan_close_reject)
        then show ?thesis using l Cons by simp
      qed
    next
      assume r: "t @ us = t1 \<and> ?x = us @ r1"
      show ?thesis
      proof (cases us)
        case Nil
        with r bad t1 show ?thesis by simp
      next
        case (Cons u us')
        then have "u \<in> set t1" using r by auto
        then have u: "\<not> is_space u" "u \<noteq> 41" using t1c by blast+
        have "hd ?x = u" using r Cons by simp
        moreover have "is_space (hd ?x) \<or> hd ?x = 41"
          using w4 by (cases w4) simp_all
        ultimately show ?thesis using u by simp
      qed
    qed
    then show ?thesis unfolding scan_tail_def dw Some p by simp
  qed
qed

lemma finditer_none:
  assumes "\<And>p s'. s = p @ s' \<Longrightarrow> scan_decl s' = None"
  shows "finditer option_pattern s = []"
  using assms
proof (induction s)
  case Nil
  show ?case by (rule finditer_Nil)
next
  case (Cons c s)
  have "scan_decl (c # s) = None" using Cons.prems [of "[]" "c # s"] by simp
  then have "finditer option_pattern (c # s) = finditer option_pattern s"
    by (rule finditer_skip)
  also have "\<dots> = []"
  proof (rule Cons.IH)
    fix p s' assume "s = p @ s'"
    then have "c # s = (c # p) @ s'" by simp
    then show "scan_decl s' = None" by (rule Cons.prems)
  qed
  finally show ?case .
qed

lemma finditer_other_token:
  assumes kw: "word_ci ''option'' k"
    and w0: "list_all is_space w0" and w1: "list_all is_space w1"
    and w2: "list_all is_space w2"
    and n: "list_all is_name n"
    and d: "34 \<notin> set d"
    and w3: "list_all is_space w3" and w4: "list_all is_space w4"
    and t: "t \<noteq> []" "\<forall>c\<in>set t. \<not> is_space c \<and> c \<noteq> 41 \<and> c \<noteq> 34"
    and bad: "\<not> is_default_token t"
  shows "finditer option_pattern (declaration_text k w0 w1 n w2 d w3 t w4) = []"
proof (rule finditer_none)
  fix p s'
  let ?h = "k @ w0 @ [40] @ w1 @ n @ w2"
  let ?B = "w3 @ t @ w4 @ [41] @ []"
  assume "declaration_text k w0 w1 n w2 d w3 t w4 = p @ s'"
  then have split: "?h @ [34] @ d @ [34] @ ?B = p @ s'"
    by (simp add: declaration_text_def)
  have sp: "list_all is_space w \<Longrightarrow> 34 \<notin> set w" for w
    using space_not_punct unfolding list_all_iff by blast
  have "34 \<notin> set n"
    using n name_not_punct unfolding list_all_iff by blast
  moreover have "34 \<notin> set k" using keyword_chars [OF kw] by blast
  ultimately have h: "34 \<notin> set ?h" using sp [OF w0] sp [OF w1] sp [OF w2] by simp
  have B: "34 \<notin> set ?B" using sp [OF w3] sp [OF w4] t(2) by auto
  have "after_quotes (?h @ [34] @ d @ [34] @ ?B) = Some ?B"
    using h d by (rule after_quotes_decomp)
  then have "after_quotes s' = None \<or> after_quotes s' = Some ?B"
    using after_quotes_suffix [OF B _ split] by blast
  moreover have "scan_tail ?B = None"
    using w3 w4 t(1) _ bad by (rule scan_tail_other_token) (use t(2) in blast)
  ultimately show "scan_decl s' = None"
    using scan_decl_after_quotes [of s'] by (cases "scan_decl s'") auto
qed

section \<open>Evaluation on concrete texts, and the groups of a match\<close>

lemma word_ci_Cons:
  "word_ci (l # w) (c # k) \<longleftrightarrow> atom_match (Literal (ord l)) c \<and> word_ci w k"
  by (simp add: word_ci_def del: atom_match.simps)

lemma word_ci_Nil: "word_ci [] k \<longleftrightarrow> k = []"
  by (simp add: word_ci_def)

lemma word_ci_Nil2: "word_ci (l # w) [] \<longleftrightarrow> False"
  by (simp add: word_ci_def)

lemmas eval_simps =
  word_ci_Cons word_ci_Nil word_ci_Nil2 is_default_token_def unicode_iscased_def folded_def
  unicode_tolower_def extra_cases_def unicode_isspace_def name_set_match declaration_text_def

lemma str_join_snoc: "xs \<noteq> [] \<Longrightarrow> str_join sep (xs @ [x]) = str_join sep xs @ sep @ x"
  by (induction sep xs rule: str_join.induct) simp_all

lemma scan_decl_token_nonempty:
  assumes "scan_decl s = Some (n, d, t, r)"
  shows "t \<noteq> Some []"
proof
  assume t: "t = Some []"
  from assms obtain s' where "scan_tail s' = Some (t, r)"
    unfolding scan_decl_def by (auto split: option.splits)
  with t obtain r' where "scan_token (dropWhile is_space s') = Some ([], r')"
    unfolding scan_tail_def by (auto split: option.splits)
  from scan_token_take [OF this] show False by simp
qed

lemma finditer_groups:
  "g \<in> set (finditer option_pattern s) \<Longrightarrow> \<exists>n d t. g = groups_of n d t \<and> t \<noteq> Some []"
proof (induction "length s" arbitrary: s rule: less_induct)
  case less
  show ?case
  proof (cases "scan_decl s")
    case None
    show ?thesis
    proof (cases s)
      case Nil
      from less.prems have False unfolding Nil finditer_Nil by simp
      then show ?thesis ..
    next
      case (Cons c s')
      then have "finditer option_pattern s = finditer option_pattern s'"
        using None finditer_skip by simp
      with less.prems have "g \<in> set (finditer option_pattern s')" by simp
      moreover have "length s' < length s" using Cons by simp
      ultimately show ?thesis using less.hyps by blast
    qed
  next
    case (Some x)
    obtain n d t r where x: "x = (n, d, t, r)" by (cases x)
    have sd: "scan_decl s = Some (n, d, t, r)" using Some x by simp
    from finditer_match [OF sd] less.prems
    consider "g = groups_of n d t" | "g \<in> set (finditer option_pattern r)" by auto
    then show ?thesis
    proof cases
      case 1
      with scan_decl_token_nonempty [OF sd] show ?thesis by blast
    next
      case 2
      moreover have "length r < length s" using sd by (rule scan_decl_length)
      ultimately show ?thesis using less.hyps by blast
    qed
  qed
qed

lemma table_row_groups:
  assumes "t \<noteq> Some []"
  shows "table_row (entry_of_match (groups_of n d t)) =
     str ''| '' @ n @ str '' | '' @ d @ str '' | ''
       @ (case t of None \<Rightarrow> str ''OFF'' | Some t' \<Rightarrow> t') @ str '' |''"
  using assms
  by (cases t) (simp_all add: table_row_def entry_of_match_def groups_of_def)

lemma spaces: "list_all unicode_isspace w \<Longrightarrow> list_all is_space w"
  by (simp add: list_all_iff)

lemma example_two_matches:
  \<open>finditer option_pattern
      (str ''option(ENABLE_TESTS "Build tests" ON)'' @ [10] @ str ''option(ENABLE_DOCS "Build docs")'') =
    [groups_of (str ''ENABLE_TESTS'') (str ''Build tests'') (Some (str ''ON'')),
     groups_of (str ''ENABLE_DOCS'') (str ''Build docs'') None]\<close>
proof -
  let ?d2 = \<open>str ''option(ENABLE_DOCS "Build docs")''\<close>
  have "scan_decl ?d2 = Some (str ''ENABLE_DOCS'', str ''Build docs'', None, [])"
    using scan_decl_declaration
      [of "str ''option''" "[]" "[]" "str '' ''" "str ''ENABLE_DOCS''" "str ''Build docs''" "[]" "[]" "[]" "[]"]
    by (simp add: eval_simps)
  from finditer_match [OF this]
  have f2: "finditer option_pattern ?d2 = [groups_of (str ''ENABLE_DOCS'') (str ''Build docs'') None]"
    by (simp only: finditer_Nil)
  have "scan_decl (10 # ?d2) = None"
    by (simp add: scan_decl_def scan_head_def eval_simps)
  from finditer_skip [OF this]
  have f1: "finditer option_pattern (10 # ?d2) = [groups_of (str ''ENABLE_DOCS'') (str ''Build docs'') None]"
    using f2 by (simp only:)
  have "scan_decl (str ''option(ENABLE_TESTS \"Build tests\" ON)'' @ 10 # ?d2) =
      Some (str ''ENABLE_TESTS'', str ''Build tests'', Some (str ''ON''), 10 # ?d2)"
    using scan_decl_declaration
      [of "str ''option''" "[]" "[]" "str '' ''" "str ''ENABLE_TESTS''" "str ''Build tests''" "str '' ''" "[]" "str ''ON''" "10 # ?d2"]
    by (simp add: eval_simps)
  from finditer_match [OF this] show ?thesis
    using f1 by (simp only: append_Cons append_Nil)
qed

section \<open>The rows of the table\<close>

text \<open>
  Claim C1, as amended. For every input text in which the pattern matches at least
  once, the formatter returns the five fixed lines, the last of which is the row of
  the installation prefix, followed by one row for each match, in the order of the
  matches; the row of a match holds the name and the description that its groups 1
  and 2 captured and the default that group 3 captured, or \<^verbatim>\<open>OFF\<close> when group 3
  took no part.
\<close>

theorem table_rows_follow_matches:
  assumes "finditer option_pattern content \<noteq> []"
  shows "\<exists>rows.
      generate_doxygen_table (extract_options content) = str_join [10] (table_header @ rows)
    \<and> length table_header = 5
    \<and> table_header ! 4 = str ''| CMAKE_INSTALL_PREFIX | Installation path | /usr/local |''
    \<and> length rows = length (finditer option_pattern content)
    \<and> (\<forall>i<length rows. \<exists>n d.
          (finditer option_pattern content ! i) 1 = Some n
        \<and> (finditer option_pattern content ! i) 2 = Some d
        \<and> rows ! i = str ''| '' @ n @ str '' | '' @ d @ str '' | ''
             @ (case (finditer option_pattern content ! i) 3 of
                  None \<Rightarrow> str ''OFF'' | Some t \<Rightarrow> t) @ str '' |'')"
proof -
  let ?ms = "finditer option_pattern content"
  let ?rows = "map (\<lambda>g. table_row (entry_of_match g)) ?ms"
  have "extract_options content \<noteq> []"
    using assms by (simp add: extract_options_def)
  then have out: "generate_doxygen_table (extract_options content) = str_join [10] (table_header @ ?rows)"
    by (simp add: generate_doxygen_table_def extract_options_def comp_def)
  have row: "\<exists>n d. (?ms ! i) 1 = Some n \<and> (?ms ! i) 2 = Some d
      \<and> ?rows ! i = str ''| '' @ n @ str '' | '' @ d @ str '' | ''
           @ (case (?ms ! i) 3 of None \<Rightarrow> str ''OFF'' | Some t \<Rightarrow> t) @ str '' |''"
    if "i < length ?rows" for i
  proof -
    from that have i: "i < length ?ms" by simp
    then have "?ms ! i \<in> set ?ms" by simp
    from finditer_groups [OF this] obtain n d t where
      g: "?ms ! i = groups_of n d t" and t: "t \<noteq> Some []" by blast
    have g1: "(?ms ! i) 1 = Some n" "(?ms ! i) 2 = Some d" "(?ms ! i) 3 = t"
      unfolding g by (cases t; simp add: groups_of_def)+
    have "?rows ! i = table_row (entry_of_match (groups_of n d t))"
      using i g by simp
    then show ?thesis
      unfolding table_row_groups [OF t] g1 by simp
  qed
  have hdr: "length table_header = 5"
    "table_header ! 4 = str ''| CMAKE_INSTALL_PREFIX | Installation path | /usr/local |''"
    by (simp_all add: table_header_def)
  show ?thesis
    using out hdr row by (intro exI [of _ ?rows] conjI allI impI) simp_all
qed

theorem table_rows_follow_matches_witness:
  \<open>finditer option_pattern
      (str ''option(ENABLE_TESTS "Build tests" ON)'' @ [10] @ str ''option(ENABLE_DOCS "Build docs")'') \<noteq> []
   \<and> (\<exists>rows.
      generate_doxygen_table (extract_options
        (str ''option(ENABLE_TESTS "Build tests" ON)'' @ [10] @ str ''option(ENABLE_DOCS "Build docs")'')) =
        str_join [10] (table_header @ rows)
    \<and> rows = [str ''| ENABLE_TESTS | Build tests | ON |'', str ''| ENABLE_DOCS | Build docs | OFF |''])\<close>
proof -
  let ?c = \<open>str ''option(ENABLE_TESTS "Build tests" ON)'' @ [10] @ str ''option(ENABLE_DOCS "Build docs")''\<close>
  have ne: "finditer option_pattern ?c \<noteq> []"
    unfolding example_two_matches by simp
  from table_rows_follow_matches [OF ne] obtain rows where
    out: "generate_doxygen_table (extract_options ?c) = str_join [10] (table_header @ rows)"
    and len: "length rows = length (finditer option_pattern ?c)"
    and row: "\<forall>i<length rows. \<exists>n d.
          (finditer option_pattern ?c ! i) 1 = Some n
        \<and> (finditer option_pattern ?c ! i) 2 = Some d
        \<and> rows ! i = str ''| '' @ n @ str '' | '' @ d @ str '' | ''
             @ (case (finditer option_pattern ?c ! i) 3 of
                  None \<Rightarrow> str ''OFF'' | Some t \<Rightarrow> t) @ str '' |''"
    by blast
  from len have l2: "length rows = 2" unfolding example_two_matches by simp
  from row [rule_format, of 0] l2 have "rows ! 0 = str ''| ENABLE_TESTS | Build tests | ON |''"
    unfolding example_two_matches by (auto simp: groups_of_def)
  moreover from row [rule_format, of 1] l2 have "rows ! 1 = str ''| ENABLE_DOCS | Build docs | OFF |''"
    unfolding example_two_matches by (auto simp: groups_of_def)
  ultimately have "rows = [str ''| ENABLE_TESTS | Build tests | ON |'', str ''| ENABLE_DOCS | Build docs | OFF |'']"
    using l2 by (cases rows; cases "tl rows") auto
  with ne out show ?thesis by blast
qed

text \<open>
  The claim as it was stated fails on a text without a match: the formatter then
  returns the message of claim C3, not the fixed lines with the row of the
  installation prefix.
\<close>

theorem prefix_row_needs_a_match_counterexample:
  "finditer option_pattern [] = []
   \<and> generate_doxygen_table (extract_options []) = str ''No CMake options found.''
   \<and> generate_doxygen_table (extract_options []) \<noteq> str_join [10] (table_header @ [])"
  by (simp add: finditer_Nil extract_options_def generate_doxygen_table_def table_header_def
      del: finditer.simps)

section \<open>Declarations and their records\<close>

text \<open>
  Claim C2, as amended. A declaration \<^verbatim>\<open>option ( <name> "<description>" [<default>] )\<close>
  with at least one whitespace character between the name and the opening quote
  gives a record, also when no whitespace stands between any other two adjacent
  tokens; the keyword is accepted in any case. The record is the first of the text,
  whatever follows the declaration.
\<close>

theorem flexible_whitespace_declaration:
  assumes "word_ci ''option'' k"
    and "list_all unicode_isspace w0" and "list_all unicode_isspace w1"
    and "list_all unicode_isspace w2" and "w2 \<noteq> []"
    and "list_all (atom_match name_set) n" and "n \<noteq> []"
    and "34 \<notin> set d"
    and "list_all unicode_isspace w3" and "list_all unicode_isspace w4"
    and "t = [] \<or> is_default_token t"
  shows "extract_options (declaration_text k w0 w1 n w2 d w3 t w4 @ r) =
           \<lparr>name = Some n, description = Some d,
            default_value = (if t = [] then str ''OFF'' else t)\<rparr> # extract_options r"
proof -
  have sp: "list_all unicode_isspace w \<Longrightarrow> list_all is_space w" for w
    by (simp add: list_all_iff)
  show ?thesis
    using assms(1) sp [OF assms(2)] sp [OF assms(3)] sp [OF assms(4)] assms(5-8)
      sp [OF assms(9)] sp [OF assms(10)] assms(11)
    by (rule extract_declaration)
qed

theorem flexible_whitespace_declaration_witness:
  \<open>word_ci ''option'' (str ''OpTiOn'')
   \<and> list_all unicode_isspace (str '' '') \<and> str '' '' \<noteq> []
   \<and> list_all (atom_match name_set) (str ''FOO'') \<and> str ''FOO'' \<noteq> []
   \<and> 34 \<notin> set (str ''bar'')
   \<and> is_default_token (str ''ON'')
   \<and> extract_options (str ''OpTiOn(FOO "bar"ON)'') =
        [\<lparr>name = Some (str ''FOO''), description = Some (str ''bar''), default_value = str ''ON''\<rparr>]\<close>
  using flexible_whitespace_declaration
    [of "str ''OpTiOn''" "[]" "[]" "str '' ''" "str ''FOO''" "str ''bar''" "[]" "[]" "str ''ON''" "[]"]
  by (simp add: eval_simps extract_options_def finditer_Nil del: finditer.simps)

text \<open>
  The claim as it was stated fails: with no whitespace between the name and the opening
  quote the pattern, which has \<^verbatim>\<open>\s+\<close> at this place, does not match.
\<close>

theorem no_space_before_quote_counterexample:
  \<open>declaration_text (str ''option'') [] [] (str ''FOO'') [] (str ''bar'') [] [] [] =
     str ''option(FOO"bar")''
   \<and> extract_options (str ''option(FOO"bar")'') = []\<close>
  by (simp add: extract_options_def sre_match_option_pattern scan_decl_def scan_head_def eval_simps)

text \<open>
  Claim C4. A matched declaration without a default token gives a record whose
  default is \<^verbatim>\<open>OFF\<close>: the record of every match whose group 3 took no part has this
  default, and a declaration written without the token is such a match.
\<close>

theorem absent_default_is_OFF:
  assumes "word_ci ''option'' k"
    and "list_all unicode_isspace w0" and "list_all unicode_isspace w1"
    and "list_all unicode_isspace w2" and "w2 \<noteq> []"
    and "list_all (atom_match name_set) n" and "n \<noteq> []"
    and "34 \<notin> set d"
    and "list_all unicode_isspace w3" and "list_all unicode_isspace w4"
  shows "extract_options (declaration_text k w0 w1 n w2 d w3 [] w4 @ r) =
           \<lparr>name = Some n, description = Some d, default_value = str ''OFF''\<rparr>
             # extract_options r
       \<and> (\<forall>content. \<forall>i<length (finditer option_pattern content).
             (finditer option_pattern content ! i) 3 = None \<longrightarrow>
             default_value (extract_options content ! i) = str ''OFF'')"
proof
  have "[] = [] \<or> is_default_token []" by simp
  from extract_declaration [OF assms(1) spaces [OF assms(2)] spaces [OF assms(3)]
      spaces [OF assms(4)] assms(5-8) spaces [OF assms(9)] spaces [OF assms(10)] this]
  show "extract_options (declaration_text k w0 w1 n w2 d w3 [] w4 @ r) =
      \<lparr>name = Some n, description = Some d, default_value = str ''OFF''\<rparr> # extract_options r"
    by simp
  show "\<forall>content. \<forall>i<length (finditer option_pattern content).
      (finditer option_pattern content ! i) 3 = None \<longrightarrow>
      default_value (extract_options content ! i) = str ''OFF''"
    by (simp add: extract_options_def entry_of_match_def)
qed

theorem absent_default_is_OFF_witness:
  \<open>word_ci ''option'' (str ''option'')
   \<and> list_all unicode_isspace (str '' '') \<and> str '' '' \<noteq> []
   \<and> list_all (atom_match name_set) (str ''ENABLE_DOCS'') \<and> str ''ENABLE_DOCS'' \<noteq> []
   \<and> 34 \<notin> set (str ''Build docs'')
   \<and> extract_options (str ''option(ENABLE_DOCS "Build docs")'') =
        [\<lparr>name = Some (str ''ENABLE_DOCS''), description = Some (str ''Build docs''),
          default_value = str ''OFF''\<rparr>]
   \<and> 0 < length (finditer option_pattern (str ''option(ENABLE_DOCS "Build docs")''))
   \<and> (finditer option_pattern (str ''option(ENABLE_DOCS "Build docs")'') ! 0) 3 = None
   \<and> default_value (extract_options (str ''option(ENABLE_DOCS "Build docs")'') ! 0) = str ''OFF''\<close>
proof -
  have "scan_decl (str ''option(ENABLE_DOCS \"Build docs\")'') =
      Some (str ''ENABLE_DOCS'', str ''Build docs'', None, [])"
    using scan_decl_declaration
      [of "str ''option''" "[]" "[]" "str '' ''" "str ''ENABLE_DOCS''" "str ''Build docs''" "[]" "[]" "[]" "[]"]
    by (simp add: eval_simps)
  from finditer_match [OF this]
  have fi: "finditer option_pattern (str ''option(ENABLE_DOCS \"Build docs\")'') =
      [groups_of (str ''ENABLE_DOCS'') (str ''Build docs'') None]"
    by (simp only: finditer_Nil)
  show ?thesis
    using absent_default_is_OFF
      [of "str ''option''" "[]" "[]" "str '' ''" "str ''ENABLE_DOCS''" "str ''Build docs''" "[]" "[]" "[]"]
      fi
    by (simp add: eval_simps extract_options_def finditer_Nil groups_of_def entry_of_match_def
        del: finditer.simps)
qed

lemma lit_ascii:
  assumes "unicode_iscased a" and "ascii_lower c = ascii_lower a"
  shows "atom_match (Literal a) c"
proof -
  from assms(1) consider "65 \<le> a \<and> a \<le> 90" | "97 \<le> a \<and> a \<le> 122"
    unfolding unicode_iscased_def by blast
  then show ?thesis
  proof cases
    case 1
    then have "ascii_lower c = a + 32" using assms(2) by (simp add: ascii_lower_def)
    then have "unicode_tolower c = a + 32"
      using 1 by (auto simp: ascii_lower_def unicode_tolower_def split: if_splits)
    then show ?thesis using 1 by (simp only: lit_upper) simp
  next
    case 2
    then have "ascii_lower c = a" using assms(2) by (simp add: ascii_lower_def)
    then have "unicode_tolower c = a"
      using 2 by (auto simp: ascii_lower_def unicode_tolower_def split: if_splits)
    then show ?thesis using 2 by (simp only: lit_lower) simp
  qed
qed

lemma word_ci_ascii:
  assumes "map ascii_lower k = map (ascii_lower \<circ> ord) w"
    and "list_all (\<lambda>l. unicode_iscased (ord l)) w"
  shows "word_ci w k"
  unfolding word_ci_def
proof (rule list_all2_all_nthI)
  show len: "length w = length k"
    using assms(1) by (metis length_map)
  fix i assume i: "i < length w"
  have "map ascii_lower k ! i = map (ascii_lower \<circ> ord) w ! i"
    using assms(1) by simp
  then have "ascii_lower (k ! i) = ascii_lower (ord (w ! i))"
    using i len by simp
  moreover have "unicode_iscased (ord (w ! i))"
    using assms(2) i by (simp add: list_all_length)
  ultimately show "atom_match (Literal (ord (w ! i))) (k ! i)"
    by (rule lit_ascii [rotated])
qed

lemma keyword_ascii: "map ascii_lower k = str ''option'' \<Longrightarrow> word_ci ''option'' k"
  by (rule word_ci_ascii) (simp_all add: ascii_lower_def unicode_iscased_def)

lemma default_token_ascii:
  assumes "map ascii_lower t \<in> {str ''on'', str ''off'', str ''true'', str ''false''}"
  shows "is_default_token t"
proof -
  from assms consider "map ascii_lower t = str ''on''" | "map ascii_lower t = str ''off''"
    | "map ascii_lower t = str ''true''" | "map ascii_lower t = str ''false''"
    by blast
  then show ?thesis
  proof cases
    case 1
    then have "word_ci ''ON'' t"
      by (intro word_ci_ascii) (simp_all add: ascii_lower_def unicode_iscased_def)
    then show ?thesis by (simp add: is_default_token_def)
  next
    case 2
    then have "word_ci ''OFF'' t"
      by (intro word_ci_ascii) (simp_all add: ascii_lower_def unicode_iscased_def)
    then show ?thesis by (simp add: is_default_token_def)
  next
    case 3
    then have "word_ci ''TRUE'' t"
      by (intro word_ci_ascii) (simp_all add: ascii_lower_def unicode_iscased_def)
    then show ?thesis by (simp add: is_default_token_def)
  next
    case 4
    then have "word_ci ''FALSE'' t"
      by (intro word_ci_ascii) (simp_all add: ascii_lower_def unicode_iscased_def)
    then show ?thesis by (simp add: is_default_token_def)
  qed
qed

text \<open>
  Claim C5. The keyword and the default token are accepted in any mix of upper and
  lower case, and the record holds the default token as the text has it:
  \<^verbatim>\<open>OPTION(FOO "bar" on)\<close> gives the record of \<^verbatim>\<open>option(FOO "bar" ON)\<close> with the default
  \<^verbatim>\<open>on\<close> in place of \<^verbatim>\<open>ON\<close>.
\<close>

theorem default_token_kept_as_written:
  assumes "map ascii_lower k = str ''option''"
    and "list_all unicode_isspace w0" and "list_all unicode_isspace w1"
    and "list_all unicode_isspace w2" and "w2 \<noteq> []"
    and "list_all (atom_match name_set) n" and "n \<noteq> []"
    and "34 \<notin> set d"
    and "list_all unicode_isspace w3" and "list_all unicode_isspace w4"
    and "map ascii_lower t \<in> {str ''on'', str ''off'', str ''true'', str ''false''}"
  shows "extract_options (declaration_text k w0 w1 n w2 d w3 t w4 @ r) =
           \<lparr>name = Some n, description = Some d, default_value = t\<rparr> # extract_options r"
proof -
  have k: "word_ci ''option'' k" using assms(1) by (rule keyword_ascii)
  have t: "is_default_token t" using assms(11) by (rule default_token_ascii)
  then have "t = [] \<or> is_default_token t" by simp
  from extract_declaration [OF k spaces [OF assms(2)] spaces [OF assms(3)]
      spaces [OF assms(4)] assms(5-8) spaces [OF assms(9)] spaces [OF assms(10)] this]
  show ?thesis using default_token_nonempty [OF t] by simp
qed

theorem default_token_kept_as_written_witness:
  \<open>map ascii_lower (str ''OPTION'') = str ''option''
   \<and> map ascii_lower (str ''on'') = str ''on'' \<and> map ascii_lower (str ''ON'') = str ''on''
   \<and> extract_options (str ''OPTION(FOO "bar" on)'') =
        [\<lparr>name = Some (str ''FOO''), description = Some (str ''bar''), default_value = str ''on''\<rparr>]
   \<and> extract_options (str ''option(FOO "bar" ON)'') =
        [\<lparr>name = Some (str ''FOO''), description = Some (str ''bar''), default_value = str ''ON''\<rparr>]\<close>
  using default_token_kept_as_written
      [of "str ''OPTION''" "[]" "[]" "str '' ''" "str ''FOO''" "str ''bar''" "str '' ''" "[]" "str ''on''" "[]"]
    default_token_kept_as_written
      [of "str ''option''" "[]" "[]" "str '' ''" "str ''FOO''" "str ''bar''" "str '' ''" "[]" "str ''ON''" "[]"]
  by (simp add: eval_simps ascii_lower_def extract_options_def finditer_Nil del: finditer.simps)

text \<open>
  Claim C9. A declaration whose trailing token is not one of the four default tokens
  in any case (a token being a non-empty text without whitespace, closing parenthesis
  or double quote) gives no record: the pattern matches nowhere in its text.
\<close>

theorem other_token_no_record:
  assumes "word_ci ''option'' k"
    and "list_all unicode_isspace w0" and "list_all unicode_isspace w1"
    and "list_all unicode_isspace w2"
    and "list_all (atom_match name_set) n"
    and "34 \<notin> set d"
    and "list_all unicode_isspace w3" and "list_all unicode_isspace w4"
    and "t \<noteq> []" and "\<forall>c\<in>set t. \<not> unicode_isspace c \<and> c \<noteq> 41 \<and> c \<noteq> 34"
    and "\<not> is_default_token t"
  shows "extract_options (declaration_text k w0 w1 n w2 d w3 t w4) = []"
proof -
  have "\<forall>c\<in>set t. \<not> is_space c \<and> c \<noteq> 41 \<and> c \<noteq> 34"
    using assms(10) by simp
  from finditer_other_token [OF assms(1) spaces [OF assms(2)] spaces [OF assms(3)]
      spaces [OF assms(4)] assms(5,6) spaces [OF assms(7)] spaces [OF assms(8)] assms(9) this assms(11)]
  show ?thesis by (simp add: extract_options_def)
qed

theorem other_token_no_record_witness:
  \<open>word_ci ''option'' (str ''option'')
   \<and> list_all unicode_isspace (str '' '')
   \<and> list_all (atom_match name_set) (str ''FOO'')
   \<and> 34 \<notin> set (str ''bar'')
   \<and> str ''MAYBE'' \<noteq> []
   \<and> list_all (\<lambda>c. \<not> unicode_isspace c \<and> c \<noteq> 41 \<and> c \<noteq> 34) (str ''MAYBE'')
   \<and> \<not> is_default_token (str ''MAYBE'')
   \<and> extract_options (str ''option(FOO "bar" MAYBE)'') = []\<close>
  using other_token_no_record
      [of "str ''option''" "[]" "[]" "str '' ''" "str ''FOO''" "str ''bar''" "str '' ''" "[]" "str ''MAYBE''"]
  by (simp add: eval_simps)

text \<open>
  Claim C10. A description may hold newline characters: the declaration is matched as
  any other, the row of its record holds the description as it is, and so the row,
  one element of the list that the formatter joins with newlines, runs over several
  lines of the output.
\<close>

theorem multiline_description:
  assumes "word_ci ''option'' k"
    and "list_all unicode_isspace w0" and "list_all unicode_isspace w1"
    and "list_all unicode_isspace w2" and "w2 \<noteq> []"
    and "list_all (atom_match name_set) n" and "n \<noteq> []"
    and "34 \<notin> set d" and "10 \<in> set d"
    and "list_all unicode_isspace w3" and "list_all unicode_isspace w4"
    and "t = [] \<or> is_default_token t"
  shows "\<exists>e. extract_options (declaration_text k w0 w1 n w2 d w3 t w4) = [e]
      \<and> description e = Some d
      \<and> table_row e = str ''| '' @ n @ str '' | '' @ d @ str '' | '' @ default_value e @ str '' |''
      \<and> 10 \<in> set (table_row e)
      \<and> generate_doxygen_table [e] = str_join [10] table_header @ [10] @ table_row e"
proof -
  let ?e = "\<lparr>name = Some n, description = Some d,
      default_value = (if t = [] then str ''OFF'' else t)\<rparr>"
  from extract_declaration [OF assms(1) spaces [OF assms(2)] spaces [OF assms(3)]
      spaces [OF assms(4)] assms(5-8) spaces [OF assms(10)] spaces [OF assms(11)] assms(12), of "[]"]
  have "extract_options (declaration_text k w0 w1 n w2 d w3 t w4) = [?e]"
    by (simp add: extract_options_def finditer_Nil del: finditer.simps)
  moreover have "table_row ?e =
      str ''| '' @ n @ str '' | '' @ d @ str '' | '' @ default_value ?e @ str '' |''"
    by (simp add: table_row_def)
  moreover have "10 \<in> set (table_row ?e)"
    using assms(9) by (simp add: table_row_def)
  moreover have "generate_doxygen_table [?e] = str_join [10] table_header @ [10] @ table_row ?e"
  proof -
    have "table_header \<noteq> []" by (simp add: table_header_def)
    then show ?thesis
      unfolding generate_doxygen_table_def by (simp add: str_join_snoc del: str_join.simps)
  qed
  ultimately show ?thesis
    by (intro exI [of _ ?e]) simp
qed

theorem multiline_description_witness:
  \<open>word_ci ''option'' (str ''option'')
   \<and> list_all unicode_isspace (str '' '') \<and> str '' '' \<noteq> []
   \<and> list_all (atom_match name_set) (str ''FOO'') \<and> str ''FOO'' \<noteq> []
   \<and> 34 \<notin> set (str ''first'' @ [10] @ str ''second'') \<and> 10 \<in> set (str ''first'' @ [10] @ str ''second'')
   \<and> is_default_token (str ''ON'')
   \<and> (\<exists>e. extract_options (str ''option(FOO "first'' @ [10] @ str ''second" ON)'') = [e]
        \<and> description e = Some (str ''first'' @ [10] @ str ''second'')
        \<and> table_row e = str ''| FOO | first'' @ [10] @ str ''second | ON |'')\<close>
proof -
  have h: \<open>word_ci ''option'' (str ''option'')
   \<and> list_all unicode_isspace (str '' '') \<and> str '' '' \<noteq> []
   \<and> list_all (atom_match name_set) (str ''FOO'') \<and> str ''FOO'' \<noteq> []
   \<and> 34 \<notin> set (str ''first'' @ [10] @ str ''second'') \<and> 10 \<in> set (str ''first'' @ [10] @ str ''second'')
   \<and> is_default_token (str ''ON'')\<close>
    by (simp add: eval_simps)
  from multiline_description
      [of "str ''option''" "[]" "[]" "str '' ''" "str ''FOO''" "str ''first'' @ [10] @ str ''second''"
          "str '' ''" "[]" "str ''ON''"]
  obtain e where
    e: "extract_options (declaration_text (str ''option'') [] [] (str ''FOO'') (str '' '')
          (str ''first'' @ [10] @ str ''second'') (str '' '') (str ''ON'') []) = [e]"
      "description e = Some (str ''first'' @ [10] @ str ''second'')"
      "table_row e = str ''| '' @ str ''FOO'' @ str '' | '' @ (str ''first'' @ [10] @ str ''second'')
          @ str '' | '' @ default_value e @ str '' |''"
    using h by auto
  have "extract_options (declaration_text (str ''option'') [] [] (str ''FOO'') (str '' '')
          (str ''first'' @ [10] @ str ''second'') (str '' '') (str ''ON'') [] @ []) =
      \<lparr>name = Some (str ''FOO''), description = Some (str ''first'' @ [10] @ str ''second''),
       default_value = (if str ''ON'' = [] then str ''OFF'' else str ''ON'')\<rparr> # extract_options []"
    by (rule extract_declaration) (simp_all add: eval_simps)
  with e(1) have "default_value e = str ''ON''"
    by (simp add: extract_options_def finditer_Nil del: finditer.simps)
  with e have "extract_options (str ''option(FOO \"first'' @ [10] @ str ''second\" ON)'') = [e]
        \<and> description e = Some (str ''first'' @ [10] @ str ''second'')
        \<and> table_row e = str ''| FOO | first'' @ [10] @ str ''second | ON |''"
    by (simp add: declaration_text_def)
  with h show ?thesis by blast
qed

section \<open>The formatter on no records\<close>

text \<open>
  Claim C3. On the empty sequence of records the formatter returns the text
  \<^verbatim>\<open>No CMake options found.\<close> and nothing else: no sentence of explanation, no header
  rows, no row for the installation prefix.
\<close>

theorem empty_sequence_message:
  "generate_doxygen_table [] = str ''No CMake options found.''"
  by (simp add: generate_doxygen_table_def)

section \<open>The entry point\<close>

text \<open>
  Claim C6. When the path names a regular file and reading it fails, the extractor
  writes one line to the error channel and returns the empty list; the program then
  prints \<^verbatim>\<open>No CMake options found.\<close> to standard output and ends with status 0.
\<close>

theorem read_failure_absorbed:
  assumes "isfile e (cmake_path argv)"
    and "read_text e (cmake_path argv) = Inl msg"
  shows "parse_cmake_options e (cmake_path argv) =
           (str ''Error reading file '' @ cmake_path argv @ str '': '' @ msg @ [10], [])
       \<and> main argv e =
           \<lparr>stdout = str ''No CMake options found.'' @ [10],
            stderr = str ''Error reading file '' @ cmake_path argv @ str '': '' @ msg @ [10],
            exit_code = 0\<rparr>"
  using assms by (simp add: main_def parse_cmake_options_def generate_doxygen_table_def)

theorem read_failure_absorbed_witness:
  "isfile \<lparr>isfile = (\<lambda>p. True), read_text = (\<lambda>p. Inl (str ''Permission denied''))\<rparr>
     (cmake_path [str ''prog'', str ''a.txt''])
   \<and> read_text \<lparr>isfile = (\<lambda>p. True), read_text = (\<lambda>p. Inl (str ''Permission denied''))\<rparr>
     (cmake_path [str ''prog'', str ''a.txt'']) = Inl (str ''Permission denied'')
   \<and> main [str ''prog'', str ''a.txt'']
       \<lparr>isfile = (\<lambda>p. True), read_text = (\<lambda>p. Inl (str ''Permission denied''))\<rparr> =
         \<lparr>stdout = str ''No CMake options found.'' @ [10],
          stderr = str ''Error reading file a.txt: Permission denied'' @ [10],
          exit_code = 0\<rparr>"
  using read_failure_absorbed
    [of "\<lparr>isfile = (\<lambda>p. True), read_text = (\<lambda>p. Inl (str ''Permission denied''))\<rparr>"
        "[str ''prog'', str ''a.txt'']" "str ''Permission denied''"]
  by (simp add: cmake_path_def)

text \<open>
  Claim C7. When the path does not name a regular file, the program writes one line
  to the error channel, nothing to standard output, and ends with status 1.
\<close>

theorem missing_file_exit:
  assumes "\<not> isfile e (cmake_path argv)"
  shows "main argv e =
           \<lparr>stdout = [],
            stderr = str ''Error: File '' @ [39] @ cmake_path argv @ [39] @ str '' not found.'' @ [10],
            exit_code = 1\<rparr>"
  using assms by (simp add: main_def)

theorem missing_file_exit_witness:
  "\<not> isfile \<lparr>isfile = (\<lambda>p. False), read_text = (\<lambda>p. Inr [])\<rparr> (cmake_path [str ''prog''])
   \<and> main [str ''prog''] \<lparr>isfile = (\<lambda>p. False), read_text = (\<lambda>p. Inr [])\<rparr> =
         \<lparr>stdout = [],
          stderr = str ''Error: File 'CMakeLists.txt' not found.'' @ [10],
          exit_code = 1\<rparr>"
  using missing_file_exit [of "\<lparr>isfile = (\<lambda>p. False), read_text = (\<lambda>p. Inr [])\<rparr>" "[str ''prog'']"]
  by (simp add: cmake_path_def)

end
